theory Spec2Isabelle
  imports Complex_Main
begin

section \<open>Arrays\<close>

text \<open>
  The program computes with numpy arrays of float64 and complex128. An array of
  two dimensions is modelled as the list of its rows, a vector as a list. The
  entries are exact numbers (\<^typ>\<open>complex\<close>, \<^typ>\<open>real\<close>, \<^typ>\<open>int\<close>): rounding of
  floating point arithmetic is not part of the model, so every statement below
  is one about the algebra the code performs.

  The numpy primitives are written out by their index formulas. \<open>nrows\<close> and
  \<open>ncols\<close> are \<open>shape[0]\<close> and \<open>shape[1]\<close>.
\<close>

type_synonym 'a mat = "'a list list"

definition nrows :: "'a mat \<Rightarrow> nat" where
  "nrows A = length A"

definition ncols :: "'a mat \<Rightarrow> nat" where
  "ncols A = (case A of [] \<Rightarrow> 0 | r # _ \<Rightarrow> length r)"

definition mat_of :: "nat \<Rightarrow> nat \<Rightarrow> (nat \<Rightarrow> nat \<Rightarrow> 'a) \<Rightarrow> 'a mat" where
  "mat_of r c f = map (\<lambda>i. map (f i) [0..<c]) [0..<r]"

text \<open>\<open>np.eye(n)\<close>, \<open>np.zeros((r,c))\<close>.\<close>

definition np_eye :: "nat \<Rightarrow> 'a::zero_neq_one mat" where
  "np_eye n = mat_of n n (\<lambda>i j. if i = j then 1 else 0)"


text \<open>\<open>A.T\<close> and \<open>np.conjugate(A)\<close>.\<close>

definition np_transpose :: "'a mat \<Rightarrow> 'a mat" where
  "np_transpose A = mat_of (ncols A) (nrows A) (\<lambda>i j. A ! j ! i)"

definition np_conjugate :: "complex mat \<Rightarrow> complex mat" where
  "np_conjugate A = map (map cnj) A"

text \<open>Scalar times array, array divided by a scalar, negation, sum of two
  arrays of one shape.\<close>

definition smul :: "'a::times \<Rightarrow> 'a mat \<Rightarrow> 'a mat" where
  "smul c A = map (map (\<lambda>x. c * x)) A"

definition sdiv :: "'a::inverse mat \<Rightarrow> 'a \<Rightarrow> 'a mat" where
  "sdiv A c = map (map (\<lambda>x. x / c)) A"

definition mneg :: "'a::uminus mat \<Rightarrow> 'a mat" where
  "mneg A = map (map uminus) A"

definition madd :: "'a::plus mat \<Rightarrow> 'a mat \<Rightarrow> 'a mat" where
  "madd A B = map2 (map2 (+)) A B"

text \<open>\<open>np.dot(A,B)\<close> for two-dimensional arrays whose inner dimensions agree,
  and \<open>np.kron(A,B)\<close>.\<close>

definition np_dot :: "'a::semiring_0 mat \<Rightarrow> 'a mat \<Rightarrow> 'a mat" where
  "np_dot A B = mat_of (nrows A) (ncols B)
     (\<lambda>i j. sum_list (map (\<lambda>k. A ! i ! k * B ! k ! j) [0..<ncols A]))"

definition np_kron :: "'a::times mat \<Rightarrow> 'a mat \<Rightarrow> 'a mat" where
  "np_kron A B = mat_of (nrows A * nrows B) (ncols A * ncols B)
     (\<lambda>i j. A ! (i div nrows B) ! (j div ncols B) * B ! (i mod nrows B) ! (j mod ncols B))"

section \<open>Lindblad instructions\<close>

text \<open>
  \<^verbatim>\<open>
  def make_Lindblad_instructions(gamma,O):
      II = np.eye(O.shape[0])
      Od = np.conjugate(O.T)
      leftright = gamma * (-np.dot(Od,O)/2)
      return [(gamma*O,Od),(leftright,II),(II,leftright)]
  \<close>
\<close>

type_synonym instruction = "complex mat \<times> complex mat"

definition make_Lindblad_instructions :: "complex \<Rightarrow> complex mat \<Rightarrow> instruction list" where
  "make_Lindblad_instructions gamma Op =
     (let II = np_eye (nrows Op);
          Od = np_conjugate (np_transpose Op);
          leftright = smul gamma (sdiv (mneg (np_dot Od Op)) 2)
      in [(smul gamma Op, Od), (leftright, II), (II, leftright)])"

text \<open>The three pairs as the specification writes them, with the plain
  transpose \<open>O\<^sup>T\<close>.\<close>

definition Lindblad_instructions_spec :: "complex \<Rightarrow> complex mat \<Rightarrow> instruction list" where
  "Lindblad_instructions_spec gamma Op =
     (let Ot = np_transpose Op;
          half = sdiv (smul (- gamma) (np_dot Ot Op)) 2
      in [(smul gamma Op, Ot), (half, np_eye (nrows Op)), (np_eye (nrows Op), half)])"

section \<open>Boltzmann factors\<close>

text \<open>
  \<open>np.isclose(a,b)\<close> with numpy's default tolerances: \<open>|a - b| <= atol + rtol * |b|\<close>,
  \<open>rtol = 1e-5\<close>, \<open>atol = 1e-8\<close>.
\<close>

definition np_isclose :: "real \<Rightarrow> real \<Rightarrow> bool" where
  "np_isclose a b \<longleftrightarrow> \<bar>a - b\<bar> \<le> 1 / 10 ^ 8 + (1 / 10 ^ 5) * \<bar>b\<bar>"

text \<open>
  \<^verbatim>\<open>
  def boltzmann_factors_ordered_inputs(self,E1,E2):
      """E1 must be less than E2"""
      if self.kT == 0:
          return 1, 0
      Z = np.exp(-E1/self.kT) + np.exp(-E2/self.kT)
      if np.isclose(Z,0):
          E2_to_E1 = 1
          E1_to_E2 = 0
      else:
          E2_to_E1 = np.exp(-E1/self.kT)/Z
          E1_to_E2 = np.exp(-E2/self.kT)/Z
      return E2_to_E1, E1_to_E2
  \<close>
  The field \<open>self.kT\<close> is the first argument.
\<close>

definition partition_Z :: "real \<Rightarrow> real \<Rightarrow> real \<Rightarrow> real" where
  "partition_Z kT E1 E2 = exp (- E1 / kT) + exp (- E2 / kT)"

definition boltzmann_factors_ordered_inputs :: "real \<Rightarrow> real \<Rightarrow> real \<Rightarrow> real \<times> real" where
  "boltzmann_factors_ordered_inputs kT E1 E2 =
     (if kT = 0 then (1, 0)
      else let Z = partition_Z kT E1 E2
           in if np_isclose Z 0 then (1, 0)
              else (exp (- E1 / kT) / Z, exp (- E2 / kT) / Z))"

text \<open>
  \<^verbatim>\<open>
  def boltzmann_factors(self,E1,E2):
      if E1 == E2:
          return 0.5,0.5
      if E1 < E2:
          return self.boltzmann_factors_ordered_inputs(E1,E2)
      else:
          E1_to_E2, E2_to_E1 = self.boltzmann_factors_ordered_inputs(E2,E1)
          return E2_to_E1, E1_to_E2
  \<close>
\<close>

definition boltzmann_factors :: "real \<Rightarrow> real \<Rightarrow> real \<Rightarrow> real \<times> real" where
  "boltzmann_factors kT E1 E2 =
     (if E1 = E2 then (1 / 2, 1 / 2)
      else if E1 < E2 then boltzmann_factors_ordered_inputs kT E1 E2
      else (case boltzmann_factors_ordered_inputs kT E2 E1 of
              (E1_to_E2, E2_to_E1) \<Rightarrow> (E2_to_E1, E1_to_E2)))"

section \<open>Dictionary keys of manifold pairs\<close>

text \<open>
  \<open>str\<close> of a non-negative Python integer: its decimal digits, most significant
  first. The manifold numbers come from \<open>range(self.maximum_manifold+1)\<close>.
\<close>

definition digit_char :: "nat \<Rightarrow> char" where
  "digit_char d = ''0123456789'' ! d"

fun str_nat :: "nat \<Rightarrow> string" where
  "str_nat n = (if n < 10 then [digit_char n]
                else str_nat (n div 10) @ [digit_char (n mod 10)])"

declare str_nat.simps [simp del]

text \<open>\<^verbatim>\<open>key = str(i) + str(j)\<close>, in \<open>set_L_by_manifold\<close>,
  \<open>set_eigensystem_by_manifold\<close> and \<open>eigfun2\<close>.\<close>

definition manifold_key :: "nat \<Rightarrow> nat \<Rightarrow> string" where
  "manifold_key i j = str_nat i @ str_nat j"

text \<open>
  \<^verbatim>\<open>
  def set_L_by_manifold(self,*,H_eigentransform=False,add_eigenstate_decoherence_effects = False):
      all_inst = self.all_instructions
      self.L_by_manifold = dict()
      for i in range(self.maximum_manifold+1):
          for j in range(self.maximum_manifold+1):
              key = str(i) + str(j)
              inst = self.extract_coherence_instructions_from_full_instructions(all_inst,i,j,...)
              ...
              self.L_by_manifold[key] = self.make_Liouvillian(inst)
  \<close>
  The dictionary is a map from keys to blocks. What is stored for the pair
  \<open>(i,j)\<close> is the parameter \<open>block i j\<close>; the loops run over \<open>i\<close> outside and \<open>j\<close>
  inside, and a later assignment to a key replaces an earlier one.
\<close>

definition set_L_by_manifold :: "nat \<Rightarrow> (nat \<Rightarrow> nat \<Rightarrow> 'b) \<Rightarrow> (string \<rightharpoonup> 'b)" where
  "set_L_by_manifold maximum_manifold block =
     fold (\<lambda>(i, j) d. d(manifold_key i j \<mapsto> block i j))
       (List.product [0..<maximum_manifold + 1] [0..<maximum_manifold + 1]) Map.empty"


section \<open>Electronic occupation numbers and manifold masks\<close>

text \<open>
  \<open>np.kron\<close> of two vectors, the sum of two vectors of one length, and Python's
  \<open>list.insert(position, item)\<close> for a position that is not negative (an item
  inserted at or beyond the end is appended).
\<close>

definition np_kron_vec :: "'a::times list \<Rightarrow> 'a list \<Rightarrow> 'a list" where
  "np_kron_vec a b = concat (map (\<lambda>x. map (\<lambda>y. x * y) b) a)"

definition vadd :: "'a::plus list \<Rightarrow> 'a list \<Rightarrow> 'a list" where
  "vadd a b = map2 (+) a b"

definition list_insert :: "nat \<Rightarrow> 'a \<Rightarrow> 'a list \<Rightarrow> 'a list" where
  "list_insert position item xs = take position xs @ item # drop position xs"

text \<open>
  \<^verbatim>\<open>
  def electronic_vector_of_ones_kron(self,position,item):
      N = 2
      n = self.num_sites
      ones_list = [np.ones(N) for i in range(n-1)]
      ones_list.insert(position,item)
      vec = ones_list.pop(0)
      for next_item in ones_list:
          vec = np.kron(vec,next_item)
      return vec
  \<close>
  \<open>self.num_sites\<close> is the first argument. After the insertion the list is not
  empty, so \<open>pop(0)\<close> returns its head.
\<close>

definition electronic_vector_of_ones_kron :: "nat \<Rightarrow> nat \<Rightarrow> real list \<Rightarrow> real list" where
  "electronic_vector_of_ones_kron n position item =
     (let ones_list = list_insert position item (replicate (n - 1) [1, 1])
      in foldl np_kron_vec (hd ones_list) (tl ones_list))"

text \<open>
  \<^verbatim>\<open>
  def set_electronic_total_occupation_number(self):
      N = 2
      n = self.num_sites
      single_mode_occ = np.arange(N)
      occ_num = self.electronic_vector_of_ones_kron(0,single_mode_occ)
      for i in range(1,n):
          occ_num += self.electronic_vector_of_ones_kron(i,single_mode_occ)
      self.electronic_total_occupation_number = occ_num
  \<close>
\<close>

definition electronic_total_occupation_number :: "nat \<Rightarrow> real list" where
  "electronic_total_occupation_number n =
     (let single_mode_occ = [0, 1];
          occ_num = electronic_vector_of_ones_kron n 0 single_mode_occ
      in foldl (\<lambda>occ_num i. vadd occ_num (electronic_vector_of_ones_kron n i single_mode_occ))
           occ_num [1..<n])"

text \<open>
  \<open>np.where(v == x)[0]\<close>: the indices of the entries equal to \<open>x\<close>, ascending.
  \<^verbatim>\<open>
  def electronic_manifold_mask(self,manifold_num):
      manifold_inds = np.where(self.electronic_total_occupation_number == manifold_num)[0]
      return manifold_inds
  \<close>
\<close>

definition np_where_eq :: "real list \<Rightarrow> real \<Rightarrow> nat list" where
  "np_where_eq v x = filter (\<lambda>i. v ! i = x) [0..<length v]"

definition electronic_manifold_mask :: "nat \<Rightarrow> nat \<Rightarrow> nat list" where
  "electronic_manifold_mask n manifold_num =
     np_where_eq (electronic_total_occupation_number n) (real manifold_num)"

text \<open>Two auxiliary predicates on occupation vectors: all entries are 0 or 1;
  the vector has length \<open>2 ^ n\<close> and every entry is a natural number up to \<open>k\<close>.\<close>

definition bits01 :: "real list \<Rightarrow> bool" where
  "bits01 v \<longleftrightarrow> set v \<subseteq> {0, 1}"

definition occ_le :: "nat \<Rightarrow> nat \<Rightarrow> real list \<Rightarrow> bool" where
  "occ_le n k v \<longleftrightarrow> length v = 2 ^ n \<and> (\<forall>x \<in> set v. \<exists>m \<le> k. x = real m)"

section \<open>Tensor factor builder\<close>

text \<open>The exceptions the modelled code raises: \<open>ValueError\<close> and \<open>Exception\<close> with
  their messages, and the \<open>IndexError\<close> of an index out of range.\<close>

datatype error = ValueError string | IndexError | Exception string

text \<open>
  The local two by two operators set in \<open>__init__\<close>:
  \<^verbatim>\<open>
  self.up = np.zeros((2,2));        self.up[1,0] = 1
  self.down = np.zeros((2,2));      self.down[0,1] = 1
  self.ii = np.eye(2)
  self.sz = np.array([[0,0],[0,1]])
  self.occupied = np.zeros((2,2));  self.occupied[1,1] = 1
  \<close>
\<close>

definition up :: "complex mat" where "up = [[0, 0], [1, 0]]"
definition down :: "complex mat" where "down = [[0, 1], [0, 0]]"
definition ii :: "complex mat" where "ii = np_eye 2"
definition occupied :: "complex mat" where "occupied = [[0, 0], [0, 1]]"

text \<open>
  \<^verbatim>\<open>
  def recursive_kron(self,list_of_matrices):
      mat = list_of_matrices.pop(0)
      n = len(list_of_matrices)
      for next_item in list_of_matrices:
          mat = np.kron(mat,next_item)
      return mat
  \<close>
  \<open>pop(0)\<close> of an empty list raises \<open>IndexError\<close>.
\<close>

definition recursive_kron :: "complex mat list \<Rightarrow> error + complex mat" where
  "recursive_kron list_of_matrices =
     (case list_of_matrices of
        [] \<Rightarrow> Inl IndexError
      | mat # rest \<Rightarrow> Inr (foldl np_kron mat rest))"

text \<open>
  \<^verbatim>\<open>
  def electronic_identity_kron(self,element_list):
      """Takes in a list of tuples (element, position)"""
      num_identities = self.num_sites - len(element_list)
      if num_identities < 0:
          raise ValueError('Too many elements for Hilbert space')
      matrix_list = [self.ii for j in range(self.num_sites)]
      for el, pos in element_list:
          matrix_list[pos] = el
      return self.recursive_kron(matrix_list)
  \<close>
  \<open>place_elements\<close> is the loop of assignments; positions are natural numbers, and
  an assignment at a position beyond the list raises \<open>IndexError\<close>.
\<close>

fun place_elements :: "(complex mat \<times> nat) list \<Rightarrow> complex mat list \<Rightarrow> error + complex mat list" where
  "place_elements [] matrix_list = Inr matrix_list"
| "place_elements ((el, pos) # rest) matrix_list =
     (if pos < length matrix_list then place_elements rest (matrix_list[pos := el])
      else Inl IndexError)"

definition electronic_identity_kron :: "nat \<Rightarrow> (complex mat \<times> nat) list \<Rightarrow> error + complex mat" where
  "electronic_identity_kron num_sites element_list =
     (let num_identities = int num_sites - int (length element_list)
      in if num_identities < 0 then Inl (ValueError ''Too many elements for Hilbert space'')
         else case place_elements element_list (replicate num_sites ii) of
                Inl e \<Rightarrow> Inl e
              | Inr matrix_list \<Rightarrow> recursive_kron matrix_list)"

text \<open>
  For the statements: the factor that stands at position \<open>k\<close> after the
  placement (the element assigned last to \<open>k\<close>, the identity if there is none),
  and the Kronecker product of a list of factors taken from left to right,
  \<open>((m\<^sub>0 \<otimes> m\<^sub>1) \<otimes> m\<^sub>2) \<otimes> \<dots>\<close>.
\<close>

definition factor_at :: "(complex mat \<times> nat) list \<Rightarrow> nat \<Rightarrow> complex mat" where
  "factor_at element_list k =
     (case map_of (rev (map (\<lambda>(el, pos). (pos, el)) element_list)) k of
        None \<Rightarrow> ii | Some el \<Rightarrow> el)"

definition kron_chain :: "complex mat list \<Rightarrow> complex mat" where
  "kron_chain ms = foldl np_kron (hd ms) (tl ms)"

text \<open>An array of \<open>r\<close> rows that all have length \<open>c\<close>.\<close>

definition is_mat :: "nat \<Rightarrow> nat \<Rightarrow> 'a mat \<Rightarrow> bool" where
  "is_mat r c A \<longleftrightarrow> length A = r \<and> (\<forall>row \<in> set A. length row = c)"

section \<open>Electronic operators and Hamiltonian\<close>

text \<open>
  \<open>itertools.combinations(xs, k)\<close>: the sublists of length \<open>k\<close> in lexicographic
  order of positions.
\<close>

fun combinations :: "'a list \<Rightarrow> nat \<Rightarrow> 'a list list" where
  "combinations xs 0 = [[]]"
| "combinations [] (Suc k) = []"
| "combinations (x # xs) (Suc k) = map ((#) x) (combinations xs k) @ combinations xs (Suc k)"

text \<open>A loop \<open>for x in xs: O_list.append(f(x))\<close> whose body may raise: the first
  exception ends it.\<close>

fun append_each :: "('a \<Rightarrow> error + 'b) \<Rightarrow> 'a list \<Rightarrow> error + 'b list" where
  "append_each f [] = Inr []"
| "append_each f (x # xs) =
     (case f x of
        Inl e \<Rightarrow> Inl e
      | Inr y \<Rightarrow> (case append_each f xs of Inl e \<Rightarrow> Inl e | Inr ys \<Rightarrow> Inr (y # ys)))"

text \<open>
  \<^verbatim>\<open>
  def make_single_operator_list(self,O):
      O_list = []
      for i in range(self.num_sites):
          Oi = self.electronic_identity_kron([(O,i)])
          O_list.append(Oi)
      return O_list

  def make_multi_operator_list(self,o_list):
      O_list = []
      positions = itertools.combinations(range(self.num_sites),len(o_list))
      for pos_tuple in positions:
          Oi = self.electronic_identity_kron(list(zip(o_list,pos_tuple)))
          O_list.append(Oi)
      return O_list
  \<close>
\<close>

definition make_single_operator_list :: "nat \<Rightarrow> complex mat \<Rightarrow> error + complex mat list" where
  "make_single_operator_list num_sites Op =
     append_each (\<lambda>i. electronic_identity_kron num_sites [(Op, i)]) [0..<num_sites]"

definition make_multi_operator_list :: "nat \<Rightarrow> complex mat list \<Rightarrow> error + complex mat list" where
  "make_multi_operator_list num_sites o_list =
     append_each (\<lambda>pos_tuple. electronic_identity_kron num_sites (zip o_list pos_tuple))
       (combinations [0..<num_sites] (length o_list))"

text \<open>
  \<^verbatim>\<open>
  def make_electronic_hamiltonian(self):
      ham = self.energies[0] * self.occupied_list[0]
      for i in range(1,self.num_sites):
          ham += self.energies[i] * self.occupied_list[i]

      for i in range(len(self.exchange_list)):
          ham += self.couplings[i] * self.exchange_list[i]
          ham += np.conjugate(self.couplings[i]) * self.exchange_list[i].T

      return ham
  \<close>
  The fields read are set in \<open>__init__\<close>: \<open>num_sites = len(site_energies)\<close>,
  \<open>occupied_list = make_single_operator_list(occupied)\<close> (\<open>set_occupied_list\<close>) and
  \<open>exchange_list = make_multi_operator_list([up,down])\<close> (\<open>set_exchange_list\<close>); the
  model computes them from the energies. \<open>add_couplings\<close> is the second loop;
  \<open>couplings[i]\<close> beyond the list raises \<open>IndexError\<close>, as \<open>energies[0]\<close> of an
  empty list does. Energies and couplings are exact complex numbers; the dtype
  of the numpy arrays is not modelled.
\<close>

fun add_couplings :: "complex list \<Rightarrow> complex mat list \<Rightarrow> nat list \<Rightarrow> complex mat \<Rightarrow> error + complex mat" where
  "add_couplings couplings exchange_list [] ham = Inr ham"
| "add_couplings couplings exchange_list (i # is) ham =
     (if i < length couplings
      then add_couplings couplings exchange_list is
             (madd (madd ham (smul (couplings ! i) (exchange_list ! i)))
                (smul (cnj (couplings ! i)) (np_transpose (exchange_list ! i))))
      else Inl IndexError)"

definition make_electronic_hamiltonian :: "complex list \<Rightarrow> complex list \<Rightarrow> error + complex mat" where
  "make_electronic_hamiltonian energies couplings =
     (let num_sites = length energies
      in case make_single_operator_list num_sites occupied of
           Inl e \<Rightarrow> Inl e
         | Inr occupied_list \<Rightarrow>
             (case make_multi_operator_list num_sites [up, down] of
                Inl e \<Rightarrow> Inl e
              | Inr exchange_list \<Rightarrow>
                  if energies = [] then Inl IndexError
                  else let ham = smul (energies ! 0) (occupied_list ! 0);
                           ham = foldl (\<lambda>ham i. madd ham (smul (energies ! i) (occupied_list ! i)))
                                   ham [1..<num_sites]
                       in add_couplings couplings exchange_list [0..<length exchange_list] ham))"

text \<open>
  For the statements. A basis index \<open>r < 2 ^ n\<close> of the \<open>n\<close>-site space has the
  occupation \<open>site_occ n k r\<close> (0 or 1) at site \<open>k\<close>; site 0 is the leftmost factor,
  the most significant binary digit of \<open>r\<close>. An operator \<open>A\<close> acts on column
  vectors, so \<open>A ! r ! c\<close> is the amplitude with which \<open>A\<close> maps the basis state \<open>c\<close>
  to the basis state \<open>r\<close>. \<open>site_pairs n\<close> lists the pairs \<open>i < j\<close> of sites in
  lexicographic order.

  \<open>occupied_entry\<close> is the projector on "site \<open>i\<close> occupied". \<open>exchange_entry n i j\<close>
  is the operator that raises site \<open>i\<close> and lowers site \<open>j\<close>: it maps a basis
  state \<open>c\<close> with site \<open>i\<close> empty and site \<open>j\<close> occupied to the state \<open>r\<close> with site
  \<open>i\<close> occupied and site \<open>j\<close> empty and all other sites as in \<open>c\<close>.
  \<open>exchange_entry_spec n i j\<close> is the operator of the specification's words, which
  raises site \<open>j\<close> and lowers site \<open>i\<close>.
\<close>

definition site_occ :: "nat \<Rightarrow> nat \<Rightarrow> nat \<Rightarrow> nat" where
  "site_occ n k r = (r div 2 ^ (n - 1 - k)) mod 2"

definition site_pairs :: "nat \<Rightarrow> (nat \<times> nat) list" where
  "site_pairs n = concat (map (\<lambda>i. map (\<lambda>j. (i, j)) [Suc i..<n]) [0..<n])"

definition occupied_entry :: "nat \<Rightarrow> nat \<Rightarrow> nat \<Rightarrow> nat \<Rightarrow> complex" where
  "occupied_entry n i r c =
     (if site_occ n i r = 1 \<and> (\<forall>k \<in> {..<n}. site_occ n k r = site_occ n k c) then 1 else 0)"

definition exchange_entry :: "nat \<Rightarrow> nat \<Rightarrow> nat \<Rightarrow> nat \<Rightarrow> nat \<Rightarrow> complex" where
  "exchange_entry n i j r c =
     (if site_occ n i r = 1 \<and> site_occ n i c = 0 \<and> site_occ n j r = 0 \<and> site_occ n j c = 1
         \<and> (\<forall>k \<in> {..<n}. k \<noteq> i \<and> k \<noteq> j \<longrightarrow> site_occ n k r = site_occ n k c)
      then 1 else 0)"

definition exchange_entry_spec :: "nat \<Rightarrow> nat \<Rightarrow> nat \<Rightarrow> nat \<Rightarrow> nat \<Rightarrow> complex" where
  "exchange_entry_spec n i j r c =
     (if site_occ n i c = 1 \<and> site_occ n j c = 0 \<and> site_occ n j r = 1 \<and> site_occ n i r = 0
         \<and> (\<forall>k \<in> {..<n}. k \<noteq> i \<and> k \<noteq> j \<longrightarrow> site_occ n k r = site_occ n k c)
      then 1 else 0)"

section \<open>Liouvillian assembly\<close>

text \<open>
  \<^verbatim>\<open>
  def make_Liouvillian(instruction_list):
      left, right = instruction_list[0]
      L = np.kron(left,right.T)
      for left,right in instruction_list[1:]:
          L = L + np.kron(left,right.T)
      return L
  \<close>
  \<open>instruction_list[0]\<close> of an empty list raises \<open>IndexError\<close>.
\<close>

definition make_Liouvillian :: "instruction list \<Rightarrow> error + complex mat" where
  "make_Liouvillian instruction_list =
     (case instruction_list of
        [] \<Rightarrow> Inl IndexError
      | (left, right) # rest \<Rightarrow>
          Inr (foldl (\<lambda>L (left, right). madd L (np_kron left (np_transpose right)))
                 (np_kron left (np_transpose right)) rest))"

text \<open>
  The superoperator acts on the vectorized density matrix: \<open>rho.flatten()\<close> is
  the concatenation of the rows, \<open>L.dot(v)\<close> the product of a matrix and a vector,
  \<open>v.reshape(r,c)\<close> cuts a vector into \<open>r\<close> rows of length \<open>c\<close>, and \<open>A.trace()\<close> is the
  sum of the diagonal (as in \<open>eigfun\<close>: \<open>eigvecs[:,i].reshape(shape,shape).trace()\<close>).
\<close>

definition np_flatten :: "'a mat \<Rightarrow> 'a list" where
  "np_flatten A = concat A"

definition np_dot_vec :: "complex mat \<Rightarrow> complex list \<Rightarrow> complex list" where
  "np_dot_vec M v = map (\<lambda>i. sum_list (map (\<lambda>k. M ! i ! k * v ! k) [0..<ncols M])) [0..<nrows M]"

definition np_reshape :: "nat \<Rightarrow> nat \<Rightarrow> 'a list \<Rightarrow> 'a mat" where
  "np_reshape r c v = mat_of r c (\<lambda>i j. v ! (i * c + j))"

definition np_trace :: "complex mat \<Rightarrow> complex" where
  "np_trace A = sum_list (map (\<lambda>i. A ! i ! i) [0..<min (nrows A) (ncols A)])"

text \<open>The triple sum \<open>\<Sum>\<^sub>i\<^sub>k\<^sub>l O\<^sub>i\<^sub>k conj(O\<^sub>i\<^sub>l) rho\<^sub>k\<^sub>l\<close>, the trace of \<open>O rho O\<^sup>H\<close>, to which every
  term of the dissipator reduces.\<close>

definition jump_sum :: "nat \<Rightarrow> (nat \<Rightarrow> nat \<Rightarrow> complex) \<Rightarrow> (nat \<Rightarrow> nat \<Rightarrow> complex) \<Rightarrow> complex" where
  "jump_sum n ob p = (\<Sum>i < n. \<Sum>k < n. \<Sum>l < n. ob i k * cnj (ob i l) * p k l)"

section \<open>Electronic dissipation instructions\<close>









section \<open>Eigensystem solver\<close>

text \<open>
  \<^verbatim>\<open>
  def eigfun(self,L,*,check_eigenvectors = True,invert = True,populations_only = False):
      eigvals, eigvecs = np.linalg.eig(L)

      eigvals = np.round(eigvals,12)
      sort_indices = eigvals.argsort()
      eigvals.sort()
      eigvecs = eigvecs[:,sort_indices]
      for i in range(eigvals.size):
          max_index = np.argmax(np.abs(eigvecs[:,i]))
          if np.real(eigvecs[max_index,i]) < 0:
              eigvecs[:,i] *= -1
          if eigvals[i] == 0:
              # eigenvalues of 0 correspond to thermal distributions,
              # which should have unit trace in the Hamiltonian space
              if populations_only:
                  trace_norm = eigvecs[:,i].sum()
                  eigvecs[:,i] = eigvecs[:,i] / trace_norm
              else:
                  shape = int(np.sqrt(eigvals.size))
                  trace_norm = eigvecs[:,i].reshape(shape,shape).trace()
                  eigvecs[:,i] = eigvecs[:,i] / trace_norm
      ...
      return eigvals, eigvecs, eigvecs_left
  \<close>
  What \<open>np.linalg.eig(L)\<close> returns is the input of the model: the eigenvalues \<open>w\<close>
  and the eigenvectors \<open>v\<close>. The code reads and writes \<open>eigvecs\<close> by columns only,
  so \<open>v\<close> is held as the list of its columns: \<open>v ! i\<close> is \<open>eigvecs[:,i]\<close>. The rest
  of the function (the left eigenvectors and the check that warns) changes
  neither \<open>eigvals\<close> nor \<open>eigvecs\<close>; the model returns these two.

  A call ends in one of three ways: it raises; it returns arrays of numbers; or
  it returns arrays that hold \<open>nan\<close> or \<open>inf\<close>. A division by zero does not raise
  in numpy: it gives \<open>nan\<close> or \<open>inf\<close> entries and a warning. Exact numbers have no
  such values, so that outcome is \<open>NonFinite\<close>.
\<close>

datatype 'a outcome = Raises error | NonFinite | Returns 'a







text \<open>A loop whose iterations each end in an outcome: the first exception ends
  it; otherwise it returns, with \<open>nan\<close> or \<open>inf\<close> entries if an iteration made
  some.\<close>

fun collect :: "'a outcome list \<Rightarrow> 'a list outcome" where
  "collect [] = Returns []"
| "collect (x # xs) =
     (case x of
        Raises e \<Rightarrow> Raises e
      | NonFinite \<Rightarrow> (case collect xs of Raises e \<Rightarrow> Raises e | _ \<Rightarrow> NonFinite)
      | Returns c \<Rightarrow>
          (case collect xs of
             Raises e \<Rightarrow> Raises e
           | NonFinite \<Rightarrow> NonFinite
           | Returns cs \<Rightarrow> Returns (c # cs)))"








section \<open>Electronic eigensystem by manifold\<close>

















section \<open>Properties\<close>

subsection \<open>Lindblad instructions\<close>

lemma sdiv_mneg_smul:
  fixes A :: "complex mat"
  shows "smul gamma (sdiv (mneg A) 2) = sdiv (smul (- gamma) A) 2"
  by (simp add: smul_def sdiv_def mneg_def)

text \<open>
  Claim C1, as the code has it. For every rate \<open>gamma\<close> and every operator \<open>O\<close>,
  \<open>make_Lindblad_instructions gamma O\<close> is the list of the three pairs
  \<open>(gamma*O, O\<^sup>H)\<close>, \<open>(-gamma*O\<^sup>H*O/2, I)\<close>, \<open>(I, -gamma*O\<^sup>H*O/2)\<close>, in this order,
  where \<open>O\<^sup>H = np.conjugate(O.T)\<close> is the conjugate transpose of \<open>O\<close> and \<open>I\<close> is the
  identity with as many rows as \<open>O\<close>.
\<close>

theorem make_Lindblad_instructions_pairs:
  "make_Lindblad_instructions gamma Op =
     [(smul gamma Op, np_conjugate (np_transpose Op)),
      (sdiv (smul (- gamma) (np_dot (np_conjugate (np_transpose Op)) Op)) 2, np_eye (nrows Op)),
      (np_eye (nrows Op), sdiv (smul (- gamma) (np_dot (np_conjugate (np_transpose Op)) Op)) 2)]"
  by (simp add: make_Lindblad_instructions_def Let_def sdiv_mneg_smul)

text \<open>
  Claim C1 as the specification states it, with the transpose \<open>O\<^sup>T\<close> in place of
  the conjugate transpose, fails for an operator with a non-real entry: at
  \<open>gamma = 1\<close> and the one by one operator \<open>[[\<i>]]\<close> the code returns \<open>[[-\<i>]]\<close> as
  the right member of the first pair, the specification's formula \<open>[[\<i>]]\<close>.
\<close>

theorem make_Lindblad_instructions_transpose_counterexample:
  "make_Lindblad_instructions 1 [[\<i>]] \<noteq> Lindblad_instructions_spec 1 [[\<i>]]"
  by (simp add: make_Lindblad_instructions_def Lindblad_instructions_spec_def Let_def
      np_conjugate_def np_transpose_def mat_of_def nrows_def ncols_def smul_def
      complex_eq_iff)

subsection \<open>Boltzmann factors\<close>

lemma exp_neg_small: "0 \<le> x \<Longrightarrow> exp (- x) \<le> 1 / (1 + (x::real))"
proof -
  assume x: "0 \<le> x"
  have "1 + x \<le> exp x" by (rule exp_ge_add_one_self)
  then have "1 / exp x \<le> 1 / (1 + x)"
    using x by (intro divide_left_mono) (auto simp: add_pos_nonneg)
  then show ?thesis by (simp add: exp_minus inverse_eq_divide)
qed

lemma partition_Z_close: "np_isclose (partition_Z 1 (10 ^ 9) (2 * 10 ^ 9)) 0"
proof -
  have a: "exp (- (10 ^ 9 :: real)) \<le> 1 / (1 + 10 ^ 9)"
    by (rule exp_neg_small) simp
  have b: "exp (- (2 * 10 ^ 9 :: real)) \<le> 1 / (1 + 2 * 10 ^ 9)"
    by (rule exp_neg_small) simp
  have "0 \<le> exp (- (10 ^ 9 :: real)) + exp (- (2 * 10 ^ 9 :: real))"
    by (simp add: add_nonneg_nonneg)
  with a b show ?thesis by (simp add: np_isclose_def partition_Z_def)
qed

lemma not_isclose_ge1: "1 \<le> z \<Longrightarrow> \<not> np_isclose z 0"
  by (simp add: np_isclose_def)

lemma partition_Z_far: "\<not> np_isclose (partition_Z 1 0 1) 0"
  by (rule not_isclose_ge1) (simp add: partition_Z_def)

text \<open>
  Claim C3. For every \<open>E\<close>, \<open>boltzmann_factors(E, E)\<close> is \<open>(0.5, 0.5)\<close>; for every
  \<open>E1\<close> and \<open>E2\<close>, \<open>boltzmann_factors(E1, E2)\<close> is the componentwise swap of
  \<open>boltzmann_factors(E2, E1)\<close>; for \<open>E1 < E2\<close> the result is the zero-temperature
  limit \<open>(1, 0)\<close> when \<open>kT == 0\<close> and likewise when the partition function
  \<open>Z = exp(-E1/kT) + exp(-E2/kT)\<close> is close to 0 (\<open>np.isclose\<close>), and for \<open>kT > 0\<close>
  and \<open>Z\<close> not close to 0 it is the pair \<open>(exp(-E1/kT)/Z, exp(-E2/kT)/Z)\<close>.
\<close>

theorem boltzmann_factors_cases:
  "boltzmann_factors kT E E = (1 / 2, 1 / 2)
   \<and> boltzmann_factors kT E1 E2 = prod.swap (boltzmann_factors kT E2 E1)
   \<and> (E1 < E2 \<and> kT = 0 \<longrightarrow> boltzmann_factors kT E1 E2 = (1, 0))
   \<and> (E1 < E2 \<and> kT \<noteq> 0 \<and> np_isclose (partition_Z kT E1 E2) 0 \<longrightarrow>
        boltzmann_factors kT E1 E2 = (1, 0))
   \<and> (E1 < E2 \<and> 0 < kT \<and> \<not> np_isclose (partition_Z kT E1 E2) 0 \<longrightarrow>
        boltzmann_factors kT E1 E2 =
          (exp (- E1 / kT) / partition_Z kT E1 E2, exp (- E2 / kT) / partition_Z kT E1 E2))"
  by (auto simp: boltzmann_factors_def boltzmann_factors_ordered_inputs_def Let_def
      split: prod.splits)

theorem boltzmann_factors_cases_witness:
  "boltzmann_factors 0 0 1 = (1, 0)
   \<and> np_isclose (partition_Z 1 (10 ^ 9) (2 * 10 ^ 9)) 0
   \<and> boltzmann_factors 1 (10 ^ 9) (2 * 10 ^ 9) = (1, 0)
   \<and> \<not> np_isclose (partition_Z 1 0 1) 0
   \<and> boltzmann_factors 1 0 1 = (1 / partition_Z 1 0 1, exp (- 1) / partition_Z 1 0 1)"
proof -
  have a: "boltzmann_factors 0 0 1 = (1, 0)"
    using boltzmann_factors_cases [where kT = 0 and E = 0 and ?E1.0 = 0 and ?E2.0 = 1,
        THEN conjunct2, THEN conjunct2, THEN conjunct1]
    by simp
  have b: "boltzmann_factors 1 (10 ^ 9) (2 * 10 ^ 9) = (1, 0)"
    using boltzmann_factors_cases [where kT = 1 and E = 0 and ?E1.0 = "10 ^ 9"
        and ?E2.0 = "2 * 10 ^ 9", THEN conjunct2, THEN conjunct2, THEN conjunct2, THEN conjunct1]
      partition_Z_close
    by simp
  have c: "boltzmann_factors 1 0 1 = (1 / partition_Z 1 0 1, exp (- 1) / partition_Z 1 0 1)"
    using boltzmann_factors_cases [where kT = 1 and E = 0 and ?E1.0 = 0 and ?E2.0 = 1,
        THEN conjunct2, THEN conjunct2, THEN conjunct2, THEN conjunct2]
      partition_Z_far
    by simp
  from a b c partition_Z_close partition_Z_far show ?thesis
    by blast
qed

subsection \<open>Dictionary keys of manifold pairs\<close>

lemma digit_char_code: "d < 10 \<Longrightarrow> (of_char (digit_char d) :: nat) = 48 + d"
proof -
  assume "d < 10"
  then have "d = 0 \<or> d = 1 \<or> d = 2 \<or> d = 3 \<or> d = 4 \<or> d = 5 \<or> d = 6 \<or> d = 7 \<or> d = 8 \<or> d = 9"
    by presburger
  then show ?thesis
    by (elim disjE) (simp_all add: digit_char_def)
qed

lemma digit_char_inj:
  assumes "a < 10" "b < 10" "digit_char a = digit_char b"
  shows "a = b"
proof -
  have "(of_char (digit_char a) :: nat) = of_char (digit_char b)"
    by (simp only: assms(3))
  then have "48 + a = 48 + b"
    by (simp only: digit_char_code [OF assms(1)] digit_char_code [OF assms(2)])
  then show ?thesis by simp
qed

lemma str_nat_digit: "n < 10 \<Longrightarrow> str_nat n = [digit_char n]"
  by (simp add: str_nat.simps)

text \<open>
  Claim C10. The key \<open>str(k) + str(l)\<close> determines the pair \<open>(k,l)\<close> when all
  manifold numbers are single digits (0..9). It does not in general: the pairs
  \<open>(1,11)\<close> and \<open>(11,1)\<close> both have the key \<open>"111"\<close>, and the dictionary built by
  \<open>set_L_by_manifold\<close> for manifolds 0..11 holds under the key of \<open>(1,11)\<close> what was
  stored for \<open>(11,1)\<close>.
\<close>

theorem manifold_key_collisions:
  "(k < 10 \<and> l < 10 \<and> k' < 10 \<and> l' < 10 \<and> manifold_key k l = manifold_key k' l'
      \<longrightarrow> k = k' \<and> l = l')
   \<and> manifold_key 1 11 = ''111'' \<and> manifold_key 11 1 = ''111''
   \<and> set_L_by_manifold 11 Pair (manifold_key 1 11) = Some (11, 1)"
proof (intro conjI impI)
  assume h: "k < 10 \<and> l < 10 \<and> k' < 10 \<and> l' < 10 \<and> manifold_key k l = manifold_key k' l'"
  then have "[digit_char k, digit_char l] = [digit_char k', digit_char l']"
    by (auto simp: manifold_key_def str_nat_digit)
  with h show "k = k'" and "l = l'"
    by (auto dest: digit_char_inj)
next
  show "manifold_key 1 11 = ''111''"
    by (simp add: manifold_key_def str_nat.simps digit_char_def)
  show "manifold_key 11 1 = ''111''"
    by (simp add: manifold_key_def str_nat.simps digit_char_def)
  show "set_L_by_manifold 11 Pair (manifold_key 1 11) = Some (11, 1)"
    by code_simp
qed

theorem manifold_key_collisions_witness:
  "(3::nat) < 10 \<and> (4::nat) < 10 \<and> manifold_key 3 4 = manifold_key 3 4
   \<and> manifold_key 1 11 = manifold_key 11 1"
  using manifold_key_collisions [of 3 4 3 4] by simp

subsection \<open>Manifold masks\<close>

lemma bits01_kron: "bits01 a \<Longrightarrow> bits01 b \<Longrightarrow> bits01 (np_kron_vec a b)"
proof -
  assume a: "bits01 a" and b: "bits01 b"
  have "z \<in> {0, 1}" if "z \<in> set (np_kron_vec a b)" for z
  proof -
    from that obtain x y where xy: "x \<in> set a" "y \<in> set b" "z = x * y"
      unfolding np_kron_vec_def by auto
    from xy(1) a have "x = 0 \<or> x = 1" unfolding bits01_def by blast
    moreover from xy(2) b have "y = 0 \<or> y = 1" unfolding bits01_def by blast
    ultimately show ?thesis using xy(3) by auto
  qed
  then show ?thesis
    unfolding bits01_def by blast
qed

lemma length_kron_vec: "length (np_kron_vec a b) = length a * length b"
  by (induction a) (simp_all add: np_kron_vec_def)

lemma foldl_kron_props:
  "bits01 v \<Longrightarrow> \<forall>w \<in> set ws. bits01 w \<and> length w = 2 \<Longrightarrow>
     bits01 (foldl np_kron_vec v ws) \<and> length (foldl np_kron_vec v ws) = length v * 2 ^ length ws"
proof (induction ws arbitrary: v)
  case Nil
  then show ?case by simp
next
  case (Cons w ws)
  have "bits01 (np_kron_vec v w)" using Cons.prems by (simp add: bits01_kron)
  from Cons.IH [OF this] Cons.prems(2) show ?case
    by (simp add: length_kron_vec)
qed

lemma ones_kron_props:
  assumes "position < n"
  shows "bits01 (electronic_vector_of_ones_kron n position [0, 1])
         \<and> length (electronic_vector_of_ones_kron n position [0, 1]) = 2 ^ n"
proof -
  let ?l = "list_insert position [0, 1::real] (replicate (n - 1) [1, 1])"
  have all: "\<forall>w \<in> set ?l. bits01 w \<and> length w = 2"
    by (auto simp: list_insert_def bits01_def dest: in_set_takeD in_set_dropD)
  have len: "length ?l = n" using assms by (simp add: list_insert_def)
  then have ne: "?l \<noteq> []" using assms by auto
  then have hd: "bits01 (hd ?l) \<and> length (hd ?l) = 2" using all by simp
  have tl: "\<forall>w \<in> set (tl ?l). bits01 w \<and> length w = 2"
    using all ne by (metis list.set_sel(2))
  have ltl: "length (tl ?l) = n - 1" using len by simp
  have pw: "2 * 2 ^ (n - 1) = (2::nat) ^ n"
    using assms by (cases n) simp_all
  have "bits01 (foldl np_kron_vec (hd ?l) (tl ?l))
        \<and> length (foldl np_kron_vec (hd ?l) (tl ?l)) = length (hd ?l) * 2 ^ length (tl ?l)"
    using hd tl by (intro foldl_kron_props) simp_all
  then have "bits01 (foldl np_kron_vec (hd ?l) (tl ?l))
        \<and> length (foldl np_kron_vec (hd ?l) (tl ?l)) = 2 ^ n"
    using hd ltl pw by simp
  then show ?thesis
    by (simp add: electronic_vector_of_ones_kron_def Let_def)
qed

lemma occ_le_vadd:
  assumes "occ_le n k v" "bits01 w" "length w = 2 ^ n"
  shows "occ_le n (Suc k) (vadd v w)"
proof -
  have "\<exists>m \<le> Suc k. x + y = real m" if "\<exists>m \<le> k. x = real m" "y \<in> {0, 1}" for x y :: real
  proof -
    from that(1) obtain m where m: "m \<le> k" "x = real m" by blast
    from that(2) consider "y = 0" | "y = 1" by auto
    then show ?thesis
    proof cases
      case 1 then show ?thesis using m by (intro exI [of _ m]) simp
    next
      case 2 then show ?thesis using m by (intro exI [of _ "Suc m"]) simp
    qed
  qed
  note step = this
  have "\<exists>m \<le> Suc k. z = real m" if "z \<in> set (vadd v w)" for z
  proof -
    from that obtain x y where xy: "(x, y) \<in> set (zip v w)" "z = x + y"
      unfolding vadd_def by auto
    from xy(1) have "x \<in> set v" "y \<in> set w"
      by (auto dest: set_zip_leftD set_zip_rightD)
    with assms have "\<exists>m \<le> k. x = real m" "y \<in> {0, 1}"
      unfolding occ_le_def bits01_def by blast+
    then show ?thesis unfolding xy(2) by (rule step)
  qed
  moreover have "length (vadd v w) = 2 ^ n"
    using assms by (simp add: vadd_def occ_le_def)
  ultimately show ?thesis
    unfolding occ_le_def by blast
qed

lemma foldl_vadd_props:
  "occ_le n k v \<Longrightarrow> \<forall>i \<in> set is. bits01 (f i) \<and> length (f i) = 2 ^ n \<Longrightarrow>
     occ_le n (k + length is) (foldl (\<lambda>acc i. vadd acc (f i)) v is)"
proof (induction "is" arbitrary: k v)
  case Nil
  then show ?case by simp
next
  case (Cons i "is")
  have "occ_le n (Suc k) (vadd v (f i))"
    using Cons.prems by (intro occ_le_vadd) simp_all
  from Cons.IH [OF this] Cons.prems(2) show ?case by simp
qed

lemma total_occupation_props:
  assumes "0 < n"
  shows "occ_le n n (electronic_total_occupation_number n)"
proof -
  have "occ_le n 1 (electronic_vector_of_ones_kron n 0 [0, 1])"
    using ones_kron_props [OF assms] unfolding occ_le_def bits01_def
    by (auto intro: exI [of _ 0] exI [of _ "Suc 0"])
  then have "occ_le n (1 + length [1..<n])
     (foldl (\<lambda>acc i. vadd acc (electronic_vector_of_ones_kron n i [0, 1]))
        (electronic_vector_of_ones_kron n 0 [0, 1]) [1..<n])"
    by (intro foldl_vadd_props) (simp_all add: ones_kron_props)
  then show ?thesis
    using assms by (simp add: electronic_total_occupation_number_def Let_def)
qed

text \<open>
  Claim C4. For every number of sites \<open>n >= 1\<close> the electronic manifold masks for
  the manifold numbers \<open>0..n\<close> are disjoint and exhaustive: every basis index
  below \<open>2 ^ n\<close> is in the mask of exactly one manifold number \<open>m <= n\<close>; a mask
  holds indices below \<open>2 ^ n\<close> only, each once. For two sites the masks of the
  manifolds 0, 1, 2 have the sizes 1, 2, 1.
\<close>

theorem electronic_manifold_masks_partition:
  "(0 < n \<and> i < 2 ^ n \<longrightarrow>
      (\<exists>!m. m \<le> n \<and> i \<in> set (electronic_manifold_mask n m)))
   \<and> (0 < n \<longrightarrow> set (electronic_manifold_mask n m) \<subseteq> {..<2 ^ n})
   \<and> distinct (electronic_manifold_mask n m)
   \<and> map (\<lambda>m. length (electronic_manifold_mask 2 m)) [0, 1, 2] = [1, 2, 1]"
proof (intro conjI impI)
  assume h: "0 < n \<and> i < 2 ^ n"
  let ?occ = "electronic_total_occupation_number n"
  from h have p: "occ_le n n ?occ" by (simp add: total_occupation_props)
  with h have "?occ ! i \<in> set ?occ" by (simp add: occ_le_def)
  with p obtain m where m: "m \<le> n" "?occ ! i = real m" unfolding occ_le_def by blast
  show "\<exists>!m. m \<le> n \<and> i \<in> set (electronic_manifold_mask n m)"
  proof (rule ex1I [of _ m])
    show "m \<le> n \<and> i \<in> set (electronic_manifold_mask n m)"
      using m h p by (simp add: electronic_manifold_mask_def np_where_eq_def occ_le_def)
  next
    fix m' assume "m' \<le> n \<and> i \<in> set (electronic_manifold_mask n m')"
    then show "m' = m"
      using m by (simp add: electronic_manifold_mask_def np_where_eq_def)
  qed
next
  assume "0 < n"
  then have "occ_le n n (electronic_total_occupation_number n)" by (rule total_occupation_props)
  then show "set (electronic_manifold_mask n m) \<subseteq> {..<2 ^ n}"
    by (auto simp: electronic_manifold_mask_def np_where_eq_def occ_le_def)
next
  show "distinct (electronic_manifold_mask n m)"
    by (simp add: electronic_manifold_mask_def np_where_eq_def)
next
  show "map (\<lambda>m. length (electronic_manifold_mask 2 m)) [0, 1, 2] = [1, 2, 1]"
    by code_simp
qed

theorem electronic_manifold_masks_partition_witness:
  "(0::nat) < 2 \<and> (2::nat) < 2 ^ 2 \<and> (\<exists>!m. m \<le> 2 \<and> 2 \<in> set (electronic_manifold_mask 2 m))
    \<and> set (electronic_manifold_mask 2 1) \<subseteq> {..<2 ^ 2}"
  using electronic_manifold_masks_partition [of 2 2 1] by simp

subsection \<open>Tensor factor builder and electronic Hamiltonian\<close>

lemma place_elements_ok:
  "\<forall>(el, pos) \<in> set els. pos < length ml \<Longrightarrow>
     \<exists>ml'. place_elements els ml = Inr ml' \<and> length ml' = length ml \<and>
       (\<forall>k < length ml. ml' ! k =
          (case map_of (rev (map (\<lambda>(el, pos). (pos, el)) els)) k of None \<Rightarrow> ml ! k | Some el \<Rightarrow> el))"
proof (induction els arbitrary: ml)
  case Nil
  then show ?case by simp
next
  case (Cons a els)
  obtain el pos where a: "a = (el, pos)" by (cases a)
  from Cons.prems a have pos: "pos < length ml" by simp
  have "\<forall>(e, p) \<in> set els. p < length (ml[pos := el])"
    using Cons.prems by auto
  from Cons.IH [OF this] obtain ml' where ml':
    "place_elements els (ml[pos := el]) = Inr ml'" "length ml' = length ml"
    "\<forall>k < length ml. ml' ! k =
       (case map_of (rev (map (\<lambda>(el, pos). (pos, el)) els)) k of
          None \<Rightarrow> ml[pos := el] ! k | Some el \<Rightarrow> el)"
    by auto
  show ?case
  proof (intro exI conjI allI impI)
    show "place_elements (a # els) ml = Inr ml'" using a pos ml'(1) by simp
    show "length ml' = length ml" by (rule ml'(2))
    fix k assume k: "k < length ml"
    show "ml' ! k = (case map_of (rev (map (\<lambda>(el, pos). (pos, el)) (a # els))) k of
                       None \<Rightarrow> ml ! k | Some el \<Rightarrow> el)"
      using ml'(3) k a pos
      by (auto simp: map_add_def nth_list_update split: option.splits)
  qed
qed

lemma is_mat_mat_of: "is_mat r c (mat_of r c f)"
  by (auto simp: is_mat_def mat_of_def)

lemma mat_of_nth: "i < r \<Longrightarrow> j < c \<Longrightarrow> mat_of r c f ! i ! j = f i j"
  by (simp add: mat_of_def)

lemma is_mat_nrows: "is_mat r c A \<Longrightarrow> nrows A = r"
  by (simp add: is_mat_def nrows_def)

lemma is_mat_ncols: "is_mat r c A \<Longrightarrow> 0 < r \<Longrightarrow> ncols A = c"
  by (cases A) (auto simp: is_mat_def ncols_def)

lemma is_mat_row: "is_mat r c A \<Longrightarrow> i < r \<Longrightarrow> length (A ! i) = c"
  by (simp add: is_mat_def)

lemma is_mat_kron:
  assumes "is_mat ra ca A" "is_mat rb cb B" "0 < ra" "0 < rb"
  shows "is_mat (ra * rb) (ca * cb) (np_kron A B)"
  using assms by (simp add: np_kron_def is_mat_nrows is_mat_ncols is_mat_mat_of)

lemma kron_nth:
  assumes "is_mat ra ca A" "is_mat rb cb B" "0 < ra" "0 < rb" "i < ra * rb" "j < ca * cb"
  shows "np_kron A B ! i ! j = A ! (i div rb) ! (j div cb) * B ! (i mod rb) ! (j mod cb)"
  using assms by (simp add: np_kron_def is_mat_nrows is_mat_ncols mat_of_nth)

lemma kron_chain_snoc: "ms \<noteq> [] \<Longrightarrow> kron_chain (ms @ [M]) = np_kron (kron_chain ms) M"
  by (cases ms) (simp_all add: kron_chain_def)

lemma site_occ_Suc: "k < n \<Longrightarrow> site_occ (Suc n) k r = site_occ n k (r div 2)"
proof -
  assume k: "k < n"
  then have "n - k = Suc (n - 1 - k)" by simp
  then have "r div 2 ^ (n - k) = (r div 2) div 2 ^ (n - 1 - k)"
    by (simp add: div_mult2_eq)
  then show ?thesis by (simp add: site_occ_def)
qed

lemma site_occ_last: "site_occ (Suc n) n r = r mod 2"
  by (simp add: site_occ_def)

lemma kron_chain_entry:
  assumes "ms \<noteq> []" "\<forall>M \<in> set ms. is_mat 2 2 M"
  shows "is_mat (2 ^ length ms) (2 ^ length ms) (kron_chain ms)
    \<and> (\<forall>r < 2 ^ length ms. \<forall>c < 2 ^ length ms.
          kron_chain ms ! r ! c =
            (\<Prod>k < length ms. ms ! k ! site_occ (length ms) k r ! site_occ (length ms) k c))"
  using assms
proof (induction ms rule: rev_induct)
  case Nil
  then show ?case by simp
next
  case (snoc M ms)
  show ?case
  proof (cases "ms = []")
    case True
    then show ?thesis using snoc.prems
      by (simp add: kron_chain_def site_occ_def)
  next
    case False
    let ?n = "length ms"
    from snoc.prems have M: "is_mat 2 2 M" and ms: "\<forall>M \<in> set ms. is_mat 2 2 M" by simp_all
    from snoc.IH [OF False ms] have
      shape: "is_mat (2 ^ ?n) (2 ^ ?n) (kron_chain ms)" and
      ent: "\<And>r c. r < 2 ^ ?n \<Longrightarrow> c < 2 ^ ?n \<Longrightarrow> kron_chain ms ! r ! c =
            (\<Prod>k < ?n. ms ! k ! site_occ ?n k r ! site_occ ?n k c)"
      by simp_all
    have eq: "kron_chain (ms @ [M]) = np_kron (kron_chain ms) M"
      using False by (rule kron_chain_snoc)
    have shape': "is_mat (2 ^ ?n * 2) (2 ^ ?n * 2) (np_kron (kron_chain ms) M)"
      using shape M by (intro is_mat_kron) simp_all
    have ent': "np_kron (kron_chain ms) M ! r ! c =
        (\<Prod>k < Suc ?n. (ms @ [M]) ! k ! site_occ (Suc ?n) k r ! site_occ (Suc ?n) k c)"
      if r: "r < 2 ^ ?n * 2" and c: "c < 2 ^ ?n * 2" for r c
    proof -
      have r2: "r div 2 < 2 ^ ?n" and c2: "c div 2 < 2 ^ ?n" using r c by auto
      have "np_kron (kron_chain ms) M ! r ! c =
          kron_chain ms ! (r div 2) ! (c div 2) * M ! (r mod 2) ! (c mod 2)"
        using shape M r c by (intro kron_nth [where ra = "2 ^ ?n" and ca = "2 ^ ?n"]) simp_all
      also have "kron_chain ms ! (r div 2) ! (c div 2) =
          (\<Prod>k < ?n. ms ! k ! site_occ ?n k (r div 2) ! site_occ ?n k (c div 2))"
        using r2 c2 by (rule ent)
      also have "\<dots> = (\<Prod>k < ?n. (ms @ [M]) ! k ! site_occ (Suc ?n) k r ! site_occ (Suc ?n) k c)"
        by (intro prod.cong) (simp_all add: site_occ_Suc nth_append)
      finally show ?thesis
        by (simp add: site_occ_last nth_append)
    qed
    show ?thesis
      using shape' ent' unfolding eq by (simp add: mult.commute)
  qed
qed

lemma recursive_kron_ok: "ms \<noteq> [] \<Longrightarrow> recursive_kron ms = Inr (kron_chain ms)"
  by (cases ms) (simp_all add: recursive_kron_def kron_chain_def)

lemma electronic_identity_kron_ok:
  assumes "length els \<le> n" "0 < n" "\<forall>(el, pos) \<in> set els. pos < n"
  shows "electronic_identity_kron n els = Inr (kron_chain (map (factor_at els) [0..<n]))"
proof -
  from assms(3) have "\<forall>(el, pos) \<in> set els. pos < length (replicate n ii)" by simp
  from place_elements_ok [OF this] obtain ml where ml:
    "place_elements els (replicate n ii) = Inr ml" "length ml = n"
    "\<forall>k < n. ml ! k = (case map_of (rev (map (\<lambda>(el, pos). (pos, el)) els)) k of
                          None \<Rightarrow> replicate n ii ! k | Some el \<Rightarrow> el)"
    by auto
  have "ml = map (factor_at els) [0..<n]"
  proof (rule nth_equalityI)
    show "length ml = length (map (factor_at els) [0..<n])" using ml(2) by simp
    fix k assume "k < length ml"
    then show "ml ! k = map (factor_at els) [0..<n] ! k"
      using ml(2,3) by (simp add: factor_at_def split: option.splits)
  qed
  moreover have "ml \<noteq> []" using ml(2) assms(2) by auto
  then have "recursive_kron ml = Inr (kron_chain ml)" by (rule recursive_kron_ok)
  ultimately have "recursive_kron ml = Inr (kron_chain (map (factor_at els) [0..<n]))"
    by simp
  then show ?thesis
    using assms(1) ml(1) by (simp add: electronic_identity_kron_def)
qed

lemma append_each_ok: "\<forall>x \<in> set xs. f x = Inr (g x) \<Longrightarrow> append_each f xs = Inr (map g xs)"
  by (induction xs) simp_all

lemma combinations_1: "combinations xs (Suc 0) = map (\<lambda>x. [x]) xs"
  by (induction xs) simp_all

lemma combinations_2_upt:
  "combinations [m..<n] 2 = concat (map (\<lambda>i. map (\<lambda>j. [i, j]) [Suc i..<n]) [m..<n])"
proof (induction "n - m" arbitrary: m)
  case 0
  then show ?case by (simp add: numeral_2_eq_2)
next
  case (Suc d)
  then have lt: "m < n" and d: "d = n - Suc m" by simp_all
  have "combinations [m..<n] 2 = combinations (m # [Suc m..<n]) (Suc (Suc 0))"
    using lt by (simp add: upt_conv_Cons numeral_2_eq_2)
  also have "\<dots> = map (\<lambda>j. [m, j]) [Suc m..<n] @ combinations [Suc m..<n] 2"
    by (simp add: combinations_1 numeral_2_eq_2 comp_def)
  also have "combinations [Suc m..<n] 2 =
      concat (map (\<lambda>i. map (\<lambda>j. [i, j]) [Suc i..<n]) [Suc m..<n])"
    using d by (rule Suc.hyps(1))
  finally show ?case using lt by (simp add: upt_conv_Cons)
qed

lemma combinations_site_pairs:
  "combinations [0..<n] 2 = map (\<lambda>(i, j). [i, j]) (site_pairs n)"
  by (simp add: combinations_2_upt site_pairs_def map_concat comp_def)

lemma site_pairs_bounds: "(i, j) \<in> set (site_pairs n) \<Longrightarrow> i < j \<and> j < n"
  by (auto simp: site_pairs_def)

lemma is_mat_smul: "is_mat r c A \<Longrightarrow> is_mat r c (smul x A)"
  by (simp add: is_mat_def smul_def)

lemma smul_nth: "is_mat r c A \<Longrightarrow> i < r \<Longrightarrow> j < c \<Longrightarrow> smul x A ! i ! j = x * A ! i ! j"
  by (simp add: is_mat_def smul_def)

lemma is_mat_madd: "is_mat r c A \<Longrightarrow> is_mat r c B \<Longrightarrow> is_mat r c (madd A B)"
  by (auto simp: is_mat_def madd_def set_zip)

lemma madd_nth:
  "is_mat r c A \<Longrightarrow> is_mat r c B \<Longrightarrow> i < r \<Longrightarrow> j < c \<Longrightarrow> madd A B ! i ! j = A ! i ! j + B ! i ! j"
  by (simp add: is_mat_def madd_def)

lemma is_mat_transpose: "is_mat r c A \<Longrightarrow> 0 < r \<Longrightarrow> is_mat c r (np_transpose A)"
  by (simp add: np_transpose_def is_mat_nrows is_mat_ncols is_mat_mat_of)

lemma transpose_nth:
  "is_mat r c A \<Longrightarrow> i < c \<Longrightarrow> j < r \<Longrightarrow> np_transpose A ! i ! j = A ! j ! i"
  by (cases "r = 0") (simp_all add: np_transpose_def is_mat_nrows is_mat_ncols mat_of_nth)

lemma foldl_madd:
  "is_mat R C h0 \<Longrightarrow> \<forall>i \<in> set is. is_mat R C (F i) \<Longrightarrow>
     is_mat R C (foldl (\<lambda>h i. madd h (F i)) h0 is)
     \<and> (\<forall>r < R. \<forall>c < C. foldl (\<lambda>h i. madd h (F i)) h0 is ! r ! c =
           h0 ! r ! c + sum_list (map (\<lambda>i. F i ! r ! c) is))"
proof (induction "is" arbitrary: h0)
  case Nil
  then show ?case by simp
next
  case (Cons i "is")
  have m: "is_mat R C (madd h0 (F i))" using Cons.prems by (simp add: is_mat_madd)
  from Cons.IH [OF m] Cons.prems(2)
  have "is_mat R C (foldl (\<lambda>h i. madd h (F i)) (madd h0 (F i)) is)"
    and "\<forall>r < R. \<forall>c < C. foldl (\<lambda>h i. madd h (F i)) (madd h0 (F i)) is ! r ! c =
           madd h0 (F i) ! r ! c + sum_list (map (\<lambda>i. F i ! r ! c) is)"
    by simp_all
  then show ?case using Cons.prems
    by (simp add: madd_nth add.assoc)
qed

lemma add_couplings_ok:
  "is_mat R R ham \<Longrightarrow> 0 < R \<Longrightarrow> \<forall>i \<in> set is. i < length couplings \<and> is_mat R R (exl ! i) \<Longrightarrow>
     \<exists>H. add_couplings couplings exl is ham = Inr H \<and> is_mat R R H
       \<and> (\<forall>r < R. \<forall>c < R. H ! r ! c = ham ! r ! c +
             sum_list (map (\<lambda>i. couplings ! i * exl ! i ! r ! c + cnj (couplings ! i) * exl ! i ! c ! r) is))"
proof (induction "is" arbitrary: ham)
  case Nil
  then show ?case by simp
next
  case (Cons i "is")
  let ?h = "madd (madd ham (smul (couplings ! i) (exl ! i)))
              (smul (cnj (couplings ! i)) (np_transpose (exl ! i)))"
  from Cons.prems have i: "i < length couplings" and e: "is_mat R R (exl ! i)" by simp_all
  have t: "is_mat R R (np_transpose (exl ! i))" using e Cons.prems(2) by (rule is_mat_transpose)
  have h1: "is_mat R R (madd ham (smul (couplings ! i) (exl ! i)))"
    using Cons.prems(1) e by (simp add: is_mat_madd is_mat_smul)
  have h: "is_mat R R ?h" using h1 t by (simp add: is_mat_madd is_mat_smul)
  have hent: "?h ! r ! c = ham ! r ! c +
      (couplings ! i * exl ! i ! r ! c + cnj (couplings ! i) * exl ! i ! c ! r)"
    if "r < R" "c < R" for r c
    using that Cons.prems(1) e t h1
    by (simp add: madd_nth [where r = R and c = R] smul_nth [where r = R and c = R]
        transpose_nth [where r = R and c = R] is_mat_smul)
  from Cons.IH [OF h Cons.prems(2)] Cons.prems(3) obtain H where H:
    "add_couplings couplings exl is ?h = Inr H" "is_mat R R H"
    "\<forall>r < R. \<forall>c < R. H ! r ! c = ?h ! r ! c +
       sum_list (map (\<lambda>i. couplings ! i * exl ! i ! r ! c + cnj (couplings ! i) * exl ! i ! c ! r) is)"
    by auto
  show ?case
  proof (intro exI conjI allI impI)
    show "add_couplings couplings exl (i # is) ham = Inr H" using i H(1) by simp
    show "is_mat R R H" by (rule H(2))
    fix r c assume "r < R" "c < R"
    then show "H ! r ! c = ham ! r ! c +
       sum_list (map (\<lambda>i. couplings ! i * exl ! i ! r ! c + cnj (couplings ! i) * exl ! i ! c ! r) (i # is))"
      using H(3) hent by (simp add: add.assoc)
  qed
qed

lemma prod_indicator:
  "finite S \<Longrightarrow> (\<Prod>k \<in> S. if P k then 1 else (0::complex)) = (if \<forall>k \<in> S. P k then 1 else 0)"
  by (induction S rule: finite_induct) auto

lemma site_occ_cases: "site_occ n k r = 0 \<or> site_occ n k r = 1"
  by (auto simp: site_occ_def)

lemma up_entry: "a < 2 \<Longrightarrow> b < 2 \<Longrightarrow> up ! a ! b = (if a = 1 \<and> b = 0 then 1 else 0)"
  by (auto simp: up_def less_2_cases_iff)

lemma down_entry: "a < 2 \<Longrightarrow> b < 2 \<Longrightarrow> down ! a ! b = (if a = 0 \<and> b = 1 then 1 else 0)"
  by (auto simp: down_def less_2_cases_iff)

lemma ii_eq: "ii = [[1, 0], [0, 1]]"
  by (simp add: ii_def np_eye_def mat_of_def upt_rec numeral_2_eq_2)

lemma ii_entry: "a < 2 \<Longrightarrow> b < 2 \<Longrightarrow> ii ! a ! b = (if a = b then 1 else 0)"
  by (auto simp: ii_eq less_2_cases_iff)

lemma is_mat_local: "is_mat 2 2 up" "is_mat 2 2 down" "is_mat 2 2 ii" "is_mat 2 2 occupied"
  by (simp_all add: is_mat_def up_def down_def ii_eq occupied_def)

lemma factor_at_is_mat:
  assumes "\<forall>(el, pos) \<in> set els. is_mat 2 2 el"
  shows "is_mat 2 2 (factor_at els k)"
proof (cases "map_of (rev (map (\<lambda>(el, pos). (pos, el)) els)) k")
  case None
  then show ?thesis by (simp add: factor_at_def is_mat_local)
next
  case (Some el)
  then have "(k, el) \<in> set (rev (map (\<lambda>(el, pos). (pos, el)) els))" by (rule map_of_SomeD)
  then have "(el, k) \<in> set els" by auto
  with assms Some show ?thesis by (auto simp: factor_at_def)
qed

lemma chain_is_mat:
  assumes "0 < n" "\<forall>(el, pos) \<in> set els. is_mat 2 2 el"
  shows "is_mat (2 ^ n) (2 ^ n) (kron_chain (map (factor_at els) [0..<n]))"
proof -
  let ?ms = "map (factor_at els) [0..<n]"
  have "?ms \<noteq> []" using assms(1) by simp
  moreover have "\<forall>M \<in> set ?ms. is_mat 2 2 M" using assms(2) by (simp add: factor_at_is_mat)
  ultimately show ?thesis using kron_chain_entry [of ?ms] by simp
qed

lemma chain_entry:
  assumes "0 < n" "\<forall>(el, pos) \<in> set els. is_mat 2 2 el" "r < 2 ^ n" "c < 2 ^ n"
  shows "kron_chain (map (factor_at els) [0..<n]) ! r ! c =
           (\<Prod>k < n. factor_at els k ! site_occ n k r ! site_occ n k c)"
proof -
  let ?ms = "map (factor_at els) [0..<n]"
  have "?ms \<noteq> []" using assms(1) by simp
  moreover have "\<forall>M \<in> set ?ms. is_mat 2 2 M" using assms(2) by (simp add: factor_at_is_mat)
  ultimately have "kron_chain ?ms ! r ! c =
      (\<Prod>k < length ?ms. ?ms ! k ! site_occ (length ?ms) k r ! site_occ (length ?ms) k c)"
    using kron_chain_entry [of ?ms] assms(3,4) by simp
  also have "\<dots> = (\<Prod>k < n. factor_at els k ! site_occ n k r ! site_occ n k c)"
    by (intro prod.cong) simp_all
  finally show ?thesis .
qed

lemma site_occ_lt2: "site_occ n k r < 2"
  by (simp add: site_occ_def)

lemma exchange_chain_entry:
  assumes "i < j" "j < n" "r < 2 ^ n" "c < 2 ^ n"
  shows "kron_chain (map (factor_at [(up, i), (down, j)]) [0..<n]) ! r ! c = exchange_entry n i j r c"
proof -
  let ?P = "\<lambda>k. if k = i then site_occ n k r = 1 \<and> site_occ n k c = 0
                  else if k = j then site_occ n k r = 0 \<and> site_occ n k c = 1
                  else site_occ n k r = site_occ n k c"
  have f: "factor_at [(up, i), (down, j)] k ! site_occ n k r ! site_occ n k c =
      (if ?P k then 1 else 0)" for k
    using assms(1)
    by (simp add: factor_at_def up_entry down_entry ii_entry site_occ_lt2)
  have "kron_chain (map (factor_at [(up, i), (down, j)]) [0..<n]) ! r ! c =
      (\<Prod>k < n. factor_at [(up, i), (down, j)] k ! site_occ n k r ! site_occ n k c)"
    using assms by (intro chain_entry) (simp_all add: is_mat_local)
  also have "\<dots> = (\<Prod>k \<in> {..<n}. if ?P k then 1 else 0)"
    by (simp only: f)
  also have "\<dots> = (if \<forall>k \<in> {..<n}. ?P k then 1 else 0)"
    by (rule prod_indicator) simp
  also have "\<dots> = exchange_entry n i j r c"
  proof -
    have "(\<forall>k \<in> {..<n}. ?P k) \<longleftrightarrow>
        (site_occ n i r = 1 \<and> site_occ n i c = 0 \<and> site_occ n j r = 0 \<and> site_occ n j c = 1
         \<and> (\<forall>k \<in> {..<n}. k \<noteq> i \<and> k \<noteq> j \<longrightarrow> site_occ n k r = site_occ n k c))"
      using assms(1,2) by (auto split: if_splits)
    then show ?thesis by (simp only: exchange_entry_def)
  qed
  finally show ?thesis .
qed

lemma occupied_local_entry:
  "a < 2 \<Longrightarrow> b < 2 \<Longrightarrow> occupied ! a ! b = (if a = 1 \<and> b = 1 then 1 else 0)"
  by (auto simp: occupied_def less_2_cases_iff)

lemma occupied_chain_entry:
  assumes "i < n" "r < 2 ^ n" "c < 2 ^ n"
  shows "kron_chain (map (factor_at [(occupied, i)]) [0..<n]) ! r ! c = occupied_entry n i r c"
proof -
  let ?P = "\<lambda>k. if k = i then site_occ n k r = 1 \<and> site_occ n k c = 1
                  else site_occ n k r = site_occ n k c"
  have f: "factor_at [(occupied, i)] k ! site_occ n k r ! site_occ n k c =
      (if ?P k then 1 else 0)" for k
    by (simp add: factor_at_def occupied_local_entry ii_entry site_occ_lt2)
  have "kron_chain (map (factor_at [(occupied, i)]) [0..<n]) ! r ! c =
      (\<Prod>k < n. factor_at [(occupied, i)] k ! site_occ n k r ! site_occ n k c)"
    using assms by (intro chain_entry) (simp_all add: is_mat_local)
  also have "\<dots> = (\<Prod>k \<in> {..<n}. if ?P k then 1 else 0)"
    by (simp only: f)
  also have "\<dots> = (if \<forall>k \<in> {..<n}. ?P k then 1 else 0)"
    by (rule prod_indicator) simp
  also have "\<dots> = occupied_entry n i r c"
  proof -
    have "(\<forall>k \<in> {..<n}. ?P k) \<longleftrightarrow>
        (site_occ n i r = 1 \<and> (\<forall>k \<in> {..<n}. site_occ n k r = site_occ n k c))"
      (is "?L \<longleftrightarrow> ?R")
    proof
      assume L: ?L
      have i: "?P i" using L assms(1) by blast
      then have i1: "site_occ n i r = 1" and i2: "site_occ n i c = 1" by simp_all
      have "site_occ n k r = site_occ n k c" if "k \<in> {..<n}" for k
      proof (cases "k = i")
        case True
        then show ?thesis using i1 i2 by simp
      next
        case False
        then show ?thesis using L that by (simp split: if_splits)
      qed
      with i1 show ?R by blast
    next
      assume R: ?R
      show ?L
      proof
        fix k assume k: "k \<in> {..<n}"
        show "?P k"
        proof (cases "k = i")
          case True
          from R have r1: "site_occ n i r = 1"
            and eq: "\<forall>k \<in> {..<n}. site_occ n k r = site_occ n k c" by blast+
          from eq assms(1) have "site_occ n i r = site_occ n i c" by blast
          with r1 have "site_occ n i c = 1" by simp
          with r1 True show ?thesis by simp
        next
          case False
          then show ?thesis using R k by simp
        qed
      qed
    qed
    then show ?thesis by (simp only: occupied_entry_def)
  qed
  finally show ?thesis .
qed

lemma single_operator_list_ok:
  "make_single_operator_list n Op =
     Inr (map (\<lambda>i. kron_chain (map (factor_at [(Op, i)]) [0..<n])) [0..<n])"
  unfolding make_single_operator_list_def
  by (rule append_each_ok) (auto intro!: electronic_identity_kron_ok)

lemma exchange_list_ok:
  "make_multi_operator_list n [up, down] =
     Inr (map (\<lambda>(i, j). kron_chain (map (factor_at [(up, i), (down, j)]) [0..<n])) (site_pairs n))"
proof -
  let ?g = "\<lambda>pos_tuple. kron_chain (map (factor_at (zip [up, down] pos_tuple)) [0..<n])"
  have "\<forall>x \<in> set (combinations [0..<n] 2).
      electronic_identity_kron n (zip [up, down] x) = Inr (?g x)"
  proof
    fix x assume "x \<in> set (combinations [0..<n] 2)"
    then obtain i j where ij: "(i, j) \<in> set (site_pairs n)" "x = [i, j]"
      by (auto simp: combinations_site_pairs)
    from ij(1) have b: "i < j" "j < n" by (auto dest: site_pairs_bounds)
    then show "electronic_identity_kron n (zip [up, down] x) = Inr (?g x)"
      unfolding ij(2) by (intro electronic_identity_kron_ok) auto
  qed
  then have "append_each (\<lambda>pos_tuple. electronic_identity_kron n (zip [up, down] pos_tuple))
      (combinations [0..<n] 2) = Inr (map ?g (combinations [0..<n] 2))"
    by (rule append_each_ok)
  moreover have "length [up, down] = 2" by simp
  ultimately have "make_multi_operator_list n [up, down] = Inr (map ?g (combinations [0..<n] 2))"
    unfolding make_multi_operator_list_def by (simp only:)
  then show ?thesis
    by (simp add: combinations_site_pairs comp_def case_prod_unfold)
qed

lemma sum_list_upt: "sum_list (map f [0..<n]) = (\<Sum>i < n. f i)"
  by (simp add: interv_sum_list_conv_sum_set_nat atLeast0LessThan)

text \<open>
  Claim C5, as the code has it. For \<open>n >= 1\<close> site energies \<open>E\<^sub>i\<close> and couplings \<open>J\<^sub>k\<close>, one
  for each pair \<open>i < j\<close> of sites in lexicographic order, the electronic
  Hamiltonian is built without error and is, entry by entry,
  \<open>H = \<Sum>\<^sub>i E\<^sub>i * occupied\<^sub>i + \<Sum>\<^sub>k (J\<^sub>k * exchange\<^sub>k + conj(J\<^sub>k) * exchange\<^sub>k\<^sup>T)\<close>, where
  \<open>occupied\<^sub>i\<close> is the projector on "site \<open>i\<close> occupied" and \<open>exchange\<^sub>k\<close>, for the
  \<open>k\<close>-th pair \<open>(i,j)\<close>, raises site \<open>i\<close> and lowers site \<open>j\<close>: it maps the basis
  state with site \<open>j\<close> occupied and site \<open>i\<close> empty to the state with site \<open>i\<close>
  occupied and site \<open>j\<close> empty. The entry \<open>(r,c)\<close> of the transpose of \<open>exchange\<^sub>k\<close>
  is written \<open>exchange_list ! k ! c ! r\<close>.
\<close>

theorem make_electronic_hamiltonian_sum:
  assumes "length energies = n" "0 < n" "length (site_pairs n) \<le> length couplings"
  shows "\<exists>H occupied_list exchange_list.
      make_single_operator_list n occupied = Inr occupied_list
    \<and> make_multi_operator_list n [up, down] = Inr exchange_list
    \<and> length exchange_list = length (site_pairs n)
    \<and> make_electronic_hamiltonian energies couplings = Inr H
    \<and> is_mat (2 ^ n) (2 ^ n) H
    \<and> (\<forall>r < 2 ^ n. \<forall>c < 2 ^ n. H ! r ! c =
          (\<Sum>i < n. energies ! i * occupied_list ! i ! r ! c)
          + (\<Sum>k < length exchange_list.
               couplings ! k * exchange_list ! k ! r ! c
               + cnj (couplings ! k) * exchange_list ! k ! c ! r))
    \<and> (\<forall>i < n. \<forall>r < 2 ^ n. \<forall>c < 2 ^ n. occupied_list ! i ! r ! c = occupied_entry n i r c)
    \<and> (\<forall>k < length exchange_list. \<forall>r < 2 ^ n. \<forall>c < 2 ^ n.
          exchange_list ! k ! r ! c =
            exchange_entry n (fst (site_pairs n ! k)) (snd (site_pairs n ! k)) r c)"
proof -
  let ?R = "(2::nat) ^ n"
  define occ where "occ = map (\<lambda>i. kron_chain (map (factor_at [(occupied, i)]) [0..<n])) [0..<n]"
  define exl where "exl =
    map (\<lambda>(i, j). kron_chain (map (factor_at [(up, i), (down, j)]) [0..<n])) (site_pairs n)"
  define F where "F = (\<lambda>i. smul (energies ! i) (occ ! i))"
  define h1 where "h1 = foldl (\<lambda>ham i. madd ham (F i)) (F 0) [1..<n]"
  have occ: "make_single_operator_list n occupied = Inr occ"
    unfolding occ_def by (rule single_operator_list_ok)
  have exl: "make_multi_operator_list n [up, down] = Inr exl"
    unfolding exl_def by (rule exchange_list_ok)
  have len: "length exl = length (site_pairs n)" by (simp add: exl_def)
  have occ_mat: "is_mat ?R ?R (occ ! i)" if "i < n" for i
    using that assms(2) by (simp add: occ_def chain_is_mat is_mat_local)
  have exl_mat: "is_mat ?R ?R (exl ! k)" if "k < length (site_pairs n)" for k
    using that assms(2) by (simp add: exl_def case_prod_unfold chain_is_mat is_mat_local)
  have F_mat: "is_mat ?R ?R (F i)" if "i < n" for i
    unfolding F_def using that by (intro is_mat_smul occ_mat)
  have F_ent: "F i ! r ! c = energies ! i * occ ! i ! r ! c" if "i < n" "r < ?R" "c < ?R" for i r c
    unfolding F_def using that by (intro smul_nth [where r = ?R and c = ?R] occ_mat)
  have "is_mat ?R ?R (F 0)" using assms(2) by (rule F_mat)
  moreover have "\<forall>i \<in> set [1..<n]. is_mat ?R ?R (F i)" by (simp add: F_mat)
  ultimately have h1: "is_mat ?R ?R h1 \<and> (\<forall>r < ?R. \<forall>c < ?R. h1 ! r ! c =
      F 0 ! r ! c + sum_list (map (\<lambda>i. F i ! r ! c) [1..<n]))"
    unfolding h1_def by (rule foldl_madd)
  have h1_ent: "h1 ! r ! c = (\<Sum>i < n. energies ! i * occ ! i ! r ! c)"
    if rc: "r < ?R" "c < ?R" for r c
  proof -
    have "h1 ! r ! c = sum_list (map (\<lambda>i. F i ! r ! c) (0 # [1..<n]))"
      using h1 rc by simp
    also have "0 # [1..<n] = [0..<n]"
      using assms(2) by (simp add: upt_conv_Cons)
    also have "sum_list (map (\<lambda>i. F i ! r ! c) [0..<n]) = (\<Sum>i < n. F i ! r ! c)"
      by (rule sum_list_upt)
    also have "\<dots> = (\<Sum>i < n. energies ! i * occ ! i ! r ! c)"
      using rc by (intro sum.cong refl F_ent) simp_all
    finally show ?thesis .
  qed
  have "\<forall>k \<in> set [0..<length exl]. k < length couplings \<and> is_mat ?R ?R (exl ! k)"
    using assms(3) exl_mat len by simp
  with add_couplings_ok [of ?R h1 "[0..<length exl]" couplings exl] h1
  obtain H where H: "add_couplings couplings exl [0..<length exl] h1 = Inr H"
    "is_mat ?R ?R H"
    "\<forall>r < ?R. \<forall>c < ?R. H ! r ! c = h1 ! r ! c +
       sum_list (map (\<lambda>i. couplings ! i * exl ! i ! r ! c + cnj (couplings ! i) * exl ! i ! c ! r)
          [0..<length exl])"
    by auto
  have ham: "make_electronic_hamiltonian energies couplings = Inr H"
    using assms(1,2) occ exl H(1)
    by (auto simp: make_electronic_hamiltonian_def Let_def h1_def F_def)
  have ent: "H ! r ! c = (\<Sum>i < n. energies ! i * occ ! i ! r ! c)
      + (\<Sum>k < length exl. couplings ! k * exl ! k ! r ! c + cnj (couplings ! k) * exl ! k ! c ! r)"
    if rc: "r < ?R" "c < ?R" for r c
    using H(3) rc h1_ent [OF rc] by (simp only: sum_list_upt)
  have dir: "exl ! k ! r ! c = exchange_entry n (fst (site_pairs n ! k)) (snd (site_pairs n ! k)) r c"
    if k: "k < length exl" and rc: "r < ?R" "c < ?R" for k r c
  proof -
    from k have k': "k < length (site_pairs n)" by (simp add: len)
    obtain i j where ij: "site_pairs n ! k = (i, j)" by (cases "site_pairs n ! k")
    with k' have "(i, j) \<in> set (site_pairs n)" by (metis nth_mem)
    then have b: "i < j" "j < n" by (auto dest: site_pairs_bounds)
    have "exl ! k = kron_chain (map (factor_at [(up, i), (down, j)]) [0..<n])"
      using k' ij by (simp add: exl_def)
    then show ?thesis
      using exchange_chain_entry [OF b rc] ij by simp
  qed
  have occ_ent: "occ ! i ! r ! c = occupied_entry n i r c"
    if "i < n" "r < ?R" "c < ?R" for i r c
    using that by (simp add: occ_def occupied_chain_entry)
  show ?thesis
    using occ exl len ham H(2) ent occ_ent dir by blast
qed

lemma site_pairs_2: "site_pairs 2 = [(0, 1)]"
  by (simp add: site_pairs_def upt_rec numeral_2_eq_2)

theorem make_electronic_hamiltonian_sum_witness:
  "length [1, 2 :: complex] = 2 \<and> (0::nat) < 2 \<and> length (site_pairs 2) \<le> length [3 + \<i>]
   \<and> (\<exists>H occupied_list exchange_list.
      make_single_operator_list 2 occupied = Inr occupied_list
    \<and> make_multi_operator_list 2 [up, down] = Inr exchange_list
    \<and> length exchange_list = length (site_pairs 2)
    \<and> make_electronic_hamiltonian [1, 2] [3 + \<i>] = Inr H
    \<and> is_mat (2 ^ 2) (2 ^ 2) H
    \<and> (\<forall>r < 2 ^ 2. \<forall>c < 2 ^ 2. H ! r ! c =
          (\<Sum>i < 2. [1, 2] ! i * occupied_list ! i ! r ! c)
          + (\<Sum>k < length exchange_list.
               [3 + \<i>] ! k * exchange_list ! k ! r ! c
               + cnj ([3 + \<i>] ! k) * exchange_list ! k ! c ! r))
    \<and> (\<forall>i < 2. \<forall>r < 2 ^ 2. \<forall>c < 2 ^ 2. occupied_list ! i ! r ! c = occupied_entry 2 i r c)
    \<and> (\<forall>k < length exchange_list. \<forall>r < 2 ^ 2. \<forall>c < 2 ^ 2.
          exchange_list ! k ! r ! c =
            exchange_entry 2 (fst (site_pairs 2 ! k)) (snd (site_pairs 2 ! k)) r c))"
proof -
  have a: "length [1, 2 :: complex] = 2" by simp
  have b: "(0::nat) < 2" by simp
  have c: "length (site_pairs 2) \<le> length [3 + \<i>]" by (simp add: site_pairs_2)
  from a b c make_electronic_hamiltonian_sum [OF a b c] show ?thesis
    by (intro conjI)
qed

text \<open>
  Claim C5 as the specification states it has \<open>exchange\<^sub>i\<^sub>j\<close> raise site \<open>j\<close> and
  lower site \<open>i\<close>. For two sites the code's only exchange operator
  \<open>np.kron(up, down)\<close> has its single 1 at row 2, column 1: it maps the state 1
  (site 1 occupied) to the state 2 (site 0 occupied). Its entry at row 1,
  column 2 is 0, where the specification's operator has 1.
\<close>

theorem exchange_direction_counterexample:
  "make_multi_operator_list 2 [up, down] =
     Inr [[[0, 0, 0, 0], [0, 0, 0, 0], [0, 1, 0, 0], [0, 0, 0, 0]]]
   \<and> [[0, 0, 0, 0], [0, 0, 0, 0], [0, 1, 0, 0], [0, 0, 0, 0 :: complex]] ! 1 ! 2
       \<noteq> exchange_entry_spec 2 0 1 1 2"
proof
  show "make_multi_operator_list 2 [up, down] =
     Inr [[[0, 0, 0, 0], [0, 0, 0, 0], [0, 1, 0, 0], [0, 0, 0, 0]]]"
    by code_simp
  show "[[0, 0, 0, 0], [0, 0, 0, 0], [0, 1, 0, 0], [0, 0, 0, 0 :: complex]] ! 1 ! 2
       \<noteq> exchange_entry_spec 2 0 1 1 2"
    by (simp add: exchange_entry_spec_def site_occ_def lessThan_Suc numeral_2_eq_2)
qed

text \<open>
  Claim C9, as the code has it. An element list longer than the number of
  sites fails at once, before anything is built, with
  \<open>ValueError('Too many elements for Hilbert space')\<close>. When the element count is
  at most the number of sites, there is at least one site and every position
  is a factor index below the number of sites, the builder succeeds and
  returns the Kronecker product, from left to right, of the factors: at each
  position the element placed there, the identity at all other positions.
\<close>

theorem electronic_identity_kron_cases:
  "(num_sites < length element_list \<longrightarrow>
      electronic_identity_kron num_sites element_list =
        Inl (ValueError ''Too many elements for Hilbert space''))
   \<and> (length element_list \<le> num_sites \<and> 0 < num_sites
        \<and> (\<forall>(el, pos) \<in> set element_list. pos < num_sites) \<longrightarrow>
      electronic_identity_kron num_sites element_list =
        Inr (kron_chain (map (factor_at element_list) [0..<num_sites])))"
proof (intro conjI impI)
  assume "num_sites < length element_list"
  then show "electronic_identity_kron num_sites element_list =
        Inl (ValueError ''Too many elements for Hilbert space'')"
    by (simp add: electronic_identity_kron_def)
next
  assume "length element_list \<le> num_sites \<and> 0 < num_sites
        \<and> (\<forall>(el, pos) \<in> set element_list. pos < num_sites)"
  then show "electronic_identity_kron num_sites element_list =
        Inr (kron_chain (map (factor_at element_list) [0..<num_sites]))"
    by (intro electronic_identity_kron_ok) simp_all
qed

theorem electronic_identity_kron_cases_witness:
  "(1::nat) < length [(up, 0::nat), (down, 1)]
   \<and> electronic_identity_kron 1 [(up, 0), (down, 1)] =
        Inl (ValueError ''Too many elements for Hilbert space'')
   \<and> length [(up, 0::nat), (down, 1)] \<le> (2::nat)
   \<and> list_all (\<lambda>(el, pos). pos < (2::nat)) [(up, 0), (down, 1)]
   \<and> electronic_identity_kron 2 [(up, 0), (down, 1)] =
        Inr [[0, 0, 0, 0], [0, 0, 0, 0], [0, 1, 0, 0], [0, 0, 0, 0]]"
proof -
  have k: "kron_chain (map (factor_at [(up, 0), (down, 1)]) [0..<2]) =
      [[0, 0, 0, 0], [0, 0, 0, 0], [0, 1, 0, 0], [0, 0, 0, 0]]"
    by code_simp
  from electronic_identity_kron_cases [of 1 "[(up, 0), (down, 1)]"]
  have a: "electronic_identity_kron 1 [(up, 0), (down, 1)] =
        Inl (ValueError ''Too many elements for Hilbert space'')"
    by simp
  from electronic_identity_kron_cases [of 2 "[(up, 0), (down, 1)]"]
  have b: "electronic_identity_kron 2 [(up, 0), (down, 1)] =
        Inr (kron_chain (map (factor_at [(up, 0), (down, 1)]) [0..<2]))"
    by simp
  from a b k show ?thesis by simp
qed

text \<open>
  Claim C9 as the specification states it promises success whenever the
  element count is at most the number of sites, and names the error of the
  other case \<open>DimensionError\<close>. With two sites and the single element \<open>(up, 3)\<close>
  the count is 1, yet the assignment \<open>matrix_list[3] = el\<close> is out of range and
  the call raises \<open>IndexError\<close>; with one site and two elements the error raised
  is a \<open>ValueError\<close>.
\<close>

theorem electronic_identity_kron_position_counterexample:
  "length [(up, 3::nat)] \<le> (2::nat)
   \<and> electronic_identity_kron 2 [(up, 3)] = Inl IndexError
   \<and> electronic_identity_kron 1 [(up, 0), (down, 1)] =
        Inl (ValueError ''Too many elements for Hilbert space'')"
  by (simp add: electronic_identity_kron_def numeral_2_eq_2)

subsection \<open>Trace preservation of the dissipator\<close>

lemma flatten_nth:
  "is_mat r c A \<Longrightarrow> i < r \<Longrightarrow> j < c \<Longrightarrow> np_flatten A ! (i * c + j) = A ! i ! j"
proof (induction A arbitrary: r i)
  case Nil
  then show ?case by (simp add: is_mat_def)
next
  case (Cons row A)
  from Cons.prems have row: "length row = c" and A: "is_mat (r - 1) c A"
    by (auto simp: is_mat_def)
  show ?case
  proof (cases i)
    case 0
    then show ?thesis using row Cons.prems by (simp add: np_flatten_def nth_append)
  next
    case (Suc i')
    then have "i' < r - 1" using Cons.prems by simp
    from Cons.IH [OF A this Cons.prems(3)] show ?thesis
      using Suc row by (simp add: np_flatten_def nth_append)
  qed
qed

lemma sum_square_index:
  fixes f :: "nat \<Rightarrow> complex"
  shows "(\<Sum>b < n * n. f b) = (\<Sum>k < n. \<Sum>l < n. f (k * n + l))"
proof -
  have "(\<Sum>b < n * n. f b) = (\<Sum>k < n. sum f {k * n..<k * n + n})"
    by (rule sum.nat_group [symmetric])
  also have "\<dots> = (\<Sum>k < n. \<Sum>l < n. f (k * n + l))"
  proof (rule sum.cong [OF refl])
    fix k
    have "sum f {0 + k * n..<n + k * n} = (\<Sum>l \<in> {0..<n}. f (l + k * n))"
      by (rule sum.shift_bounds_nat_ivl)
    then show "sum f {k * n..<k * n + n} = (\<Sum>l < n. f (k * n + l))"
      by (simp add: add.commute atLeast0LessThan)
  qed
  finally show ?thesis .
qed

lemma index_lt: "i < n \<Longrightarrow> j < n \<Longrightarrow> i * n + j < n * (n::nat)"
proof -
  assume i: "i < n" and j: "j < n"
  have "i * n + j < Suc i * n" using j by simp
  also have "Suc i * n \<le> n * n" using i by (intro mult_le_mono1) simp
  finally show ?thesis .
qed

lemma kron_T_entry:
  assumes "is_mat n n A" "is_mat n n B" "i < n" "j < n" "k < n" "l < n"
  shows "np_kron A (np_transpose B) ! (i * n + j) ! (k * n + l) = A ! i ! k * B ! l ! j"
proof -
  have n: "0 < n" using assms(3) by simp
  have T: "is_mat n n (np_transpose B)" using assms(2) n by (rule is_mat_transpose)
  have a: "i * n + j < n * n" and b: "k * n + l < n * n"
    using assms(3-6) by (simp_all add: index_lt)
  show ?thesis
    using kron_nth [OF assms(1) T n n a b] assms
    by (simp add: transpose_nth [where r = n and c = n])
qed

lemma sum3_swap13:
  fixes f :: "nat \<Rightarrow> nat \<Rightarrow> nat \<Rightarrow> complex"
  shows "(\<Sum>i < n. \<Sum>k < n. \<Sum>m < n. f i k m) = (\<Sum>m < n. \<Sum>k < n. \<Sum>i < n. f i k m)"
proof -
  have "(\<Sum>i < n. \<Sum>k < n. \<Sum>m < n. f i k m) = (\<Sum>i < n. \<Sum>m < n. \<Sum>k < n. f i k m)"
    by (rule sum.cong [OF refl]) (rule sum.swap)
  also have "\<dots> = (\<Sum>m < n. \<Sum>i < n. \<Sum>k < n. f i k m)"
    by (rule sum.swap)
  also have "\<dots> = (\<Sum>m < n. \<Sum>k < n. \<Sum>i < n. f i k m)"
    by (rule sum.cong [OF refl]) (rule sum.swap)
  finally show ?thesis .
qed

lemma lindblad_trace_sums:
  fixes ob p :: "nat \<Rightarrow> nat \<Rightarrow> complex" and g :: complex
  shows "(\<Sum>i < n. \<Sum>k < n. \<Sum>l < n. (g * ob i k) * cnj (ob i l) * p k l) = g * jump_sum n ob p"
    and "(\<Sum>i < n. \<Sum>k < n. (g * (- (\<Sum>m < n. cnj (ob m i) * ob m k) / 2)) * p k i)
           = - (g / 2) * jump_sum n ob p"
    and "(\<Sum>i < n. \<Sum>l < n. (g * (- (\<Sum>m < n. cnj (ob m l) * ob m i) / 2)) * p i l)
           = - (g / 2) * jump_sum n ob p"
proof -
  show "(\<Sum>i < n. \<Sum>k < n. \<Sum>l < n. (g * ob i k) * cnj (ob i l) * p k l) = g * jump_sum n ob p"
    unfolding jump_sum_def by (simp add: sum_distrib_left mult.assoc)
  have "(\<Sum>i < n. \<Sum>k < n. (g * (- (\<Sum>m < n. cnj (ob m i) * ob m k) / 2)) * p k i)
      = (\<Sum>i < n. \<Sum>k < n. \<Sum>m < n. - (g / 2) * (ob m k * cnj (ob m i) * p k i))"
    by (simp add: sum_distrib_left sum_distrib_right sum_negf sum_divide_distrib mult_ac)
  also have "\<dots> = (\<Sum>m < n. \<Sum>k < n. \<Sum>i < n. - (g / 2) * (ob m k * cnj (ob m i) * p k i))"
    by (rule sum3_swap13)
  also have "\<dots> = - (g / 2) * jump_sum n ob p"
    unfolding jump_sum_def by (simp add: sum_distrib_left)
  finally show "(\<Sum>i < n. \<Sum>k < n. (g * (- (\<Sum>m < n. cnj (ob m i) * ob m k) / 2)) * p k i)
     = - (g / 2) * jump_sum n ob p" .
  have "(\<Sum>i < n. \<Sum>l < n. (g * (- (\<Sum>m < n. cnj (ob m l) * ob m i) / 2)) * p i l)
      = (\<Sum>i < n. \<Sum>l < n. \<Sum>m < n. - (g / 2) * (ob m i * cnj (ob m l) * p i l))"
    by (simp add: sum_distrib_left sum_distrib_right sum_negf sum_divide_distrib mult_ac)
  also have "\<dots> = (\<Sum>i < n. \<Sum>m < n. \<Sum>l < n. - (g / 2) * (ob m i * cnj (ob m l) * p i l))"
    by (rule sum.cong [OF refl]) (rule sum.swap)
  also have "\<dots> = (\<Sum>m < n. \<Sum>i < n. \<Sum>l < n. - (g / 2) * (ob m i * cnj (ob m l) * p i l))"
    by (rule sum.swap)
  also have "\<dots> = - (g / 2) * jump_sum n ob p"
    unfolding jump_sum_def by (simp add: sum_distrib_left)
  finally show "(\<Sum>i < n. \<Sum>l < n. (g * (- (\<Sum>m < n. cnj (ob m l) * ob m i) / 2)) * p i l)
     = - (g / 2) * jump_sum n ob p" .
qed

lemma is_mat_conjugate: "is_mat r c A \<Longrightarrow> is_mat r c (np_conjugate A)"
  by (simp add: is_mat_def np_conjugate_def)

lemma conjugate_nth:
  "is_mat r c A \<Longrightarrow> i < r \<Longrightarrow> j < c \<Longrightarrow> np_conjugate A ! i ! j = cnj (A ! i ! j)"
  by (simp add: is_mat_def np_conjugate_def)

lemma is_mat_sdiv: "is_mat r c A \<Longrightarrow> is_mat r c (sdiv A x)"
  by (simp add: is_mat_def sdiv_def)

lemma sdiv_nth: "is_mat r c A \<Longrightarrow> i < r \<Longrightarrow> j < c \<Longrightarrow> sdiv A x ! i ! j = A ! i ! j / x"
  by (simp add: is_mat_def sdiv_def)

lemma is_mat_mneg: "is_mat r c A \<Longrightarrow> is_mat r c (mneg A)"
  by (simp add: is_mat_def mneg_def)

lemma mneg_nth: "is_mat r c A \<Longrightarrow> i < r \<Longrightarrow> j < c \<Longrightarrow> mneg A ! i ! j = - A ! i ! j"
  by (simp add: is_mat_def mneg_def)

lemma is_mat_eye: "is_mat n n (np_eye n)"
  by (simp add: np_eye_def is_mat_mat_of)

lemma eye_nth: "i < n \<Longrightarrow> j < n \<Longrightarrow> np_eye n ! i ! j = (if i = j then 1 else 0)"
  by (simp add: np_eye_def mat_of_nth)

lemma is_mat_dot: "is_mat r m A \<Longrightarrow> is_mat m c B \<Longrightarrow> 0 < m \<Longrightarrow> is_mat r c (np_dot A B)"
  by (simp add: np_dot_def is_mat_nrows is_mat_ncols is_mat_mat_of)

lemma dot_nth:
  "is_mat r m A \<Longrightarrow> is_mat m c B \<Longrightarrow> 0 < r \<Longrightarrow> 0 < m \<Longrightarrow> i < r \<Longrightarrow> j < c \<Longrightarrow>
     np_dot A B ! i ! j = (\<Sum>k < m. A ! i ! k * B ! k ! j)"
  by (simp add: np_dot_def is_mat_nrows is_mat_ncols mat_of_nth sum_list_upt)

lemma trace_apply:
  assumes M: "is_mat (n * n) (n * n) M" and p: "is_mat n n rho" and n: "0 < n"
  shows "np_trace (np_reshape n n (np_dot_vec M (np_flatten rho))) =
           (\<Sum>i < n. \<Sum>k < n. \<Sum>l < n. M ! (i * n + i) ! (k * n + l) * rho ! k ! l)"
proof -
  let ?v = "np_flatten rho"
  let ?w = "np_dot_vec M ?v"
  have nn: "0 < n * n" using n by simp
  have w: "?w ! a = (\<Sum>k < n. \<Sum>l < n. M ! a ! (k * n + l) * rho ! k ! l)" if a: "a < n * n" for a
  proof -
    have "?w ! a = (\<Sum>b < n * n. M ! a ! b * ?v ! b)"
      using a M nn by (simp add: np_dot_vec_def is_mat_nrows is_mat_ncols sum_list_upt)
    also have "\<dots> = (\<Sum>k < n. \<Sum>l < n. M ! a ! (k * n + l) * ?v ! (k * n + l))"
      by (rule sum_square_index)
    also have "\<dots> = (\<Sum>k < n. \<Sum>l < n. M ! a ! (k * n + l) * rho ! k ! l)"
      using p by (intro sum.cong refl) (simp add: flatten_nth)
    finally show ?thesis .
  qed
  have R: "is_mat n n (np_reshape n n ?w)" by (simp add: np_reshape_def is_mat_mat_of)
  have "np_trace (np_reshape n n ?w) = (\<Sum>i < n. np_reshape n n ?w ! i ! i)"
    using R n by (simp add: np_trace_def is_mat_nrows is_mat_ncols sum_list_upt)
  also have "\<dots> = (\<Sum>i < n. ?w ! (i * n + i))"
    by (intro sum.cong refl) (simp add: np_reshape_def mat_of_nth)
  also have "\<dots> = (\<Sum>i < n. \<Sum>k < n. \<Sum>l < n. M ! (i * n + i) ! (k * n + l) * rho ! k ! l)"
    by (intro sum.cong refl w) (simp add: index_lt)
  finally show ?thesis .
qed

lemma Od_props:
  assumes "is_mat n n Op" "0 < n"
  shows "is_mat n n (np_conjugate (np_transpose Op))"
    and "\<And>i j. i < n \<Longrightarrow> j < n \<Longrightarrow> np_conjugate (np_transpose Op) ! i ! j = cnj (Op ! j ! i)"
proof -
  have T: "is_mat n n (np_transpose Op)" using assms by (rule is_mat_transpose)
  then show "is_mat n n (np_conjugate (np_transpose Op))" by (rule is_mat_conjugate)
  fix i j assume "i < n" "j < n"
  then show "np_conjugate (np_transpose Op) ! i ! j = cnj (Op ! j ! i)"
    using T assms(1)
    by (simp add: conjugate_nth [where r = n and c = n] transpose_nth [where r = n and c = n])
qed

lemma leftright_props:
  assumes "is_mat n n Op" "0 < n"
  shows "is_mat n n (smul gamma (sdiv (mneg (np_dot (np_conjugate (np_transpose Op)) Op)) 2))"
    and "\<And>i k. i < n \<Longrightarrow> k < n \<Longrightarrow>
           smul gamma (sdiv (mneg (np_dot (np_conjugate (np_transpose Op)) Op)) 2) ! i ! k =
             gamma * (- (\<Sum>m < n. cnj (Op ! m ! i) * Op ! m ! k) / 2)"
proof -
  let ?Od = "np_conjugate (np_transpose Op)"
  have Od: "is_mat n n ?Od" using assms by (rule Od_props(1))
  have D: "is_mat n n (np_dot ?Od Op)" using Od assms by (rule is_mat_dot)
  have N: "is_mat n n (mneg (np_dot ?Od Op))" using D by (rule is_mat_mneg)
  have S: "is_mat n n (sdiv (mneg (np_dot ?Od Op)) 2)" using N by (rule is_mat_sdiv)
  show "is_mat n n (smul gamma (sdiv (mneg (np_dot ?Od Op)) 2))" using S by (rule is_mat_smul)
  fix i k assume ik: "i < n" "k < n"
  have "np_dot ?Od Op ! i ! k = (\<Sum>m < n. ?Od ! i ! m * Op ! m ! k)"
    using Od assms(1) assms(2) assms(2) ik by (rule dot_nth)
  also have "\<dots> = (\<Sum>m < n. cnj (Op ! m ! i) * Op ! m ! k)"
    using ik assms by (intro sum.cong refl) (simp add: Od_props(2))
  finally have d: "np_dot ?Od Op ! i ! k = (\<Sum>m < n. cnj (Op ! m ! i) * Op ! m ! k)" .
  show "smul gamma (sdiv (mneg (np_dot ?Od Op)) 2) ! i ! k =
      gamma * (- (\<Sum>m < n. cnj (Op ! m ! i) * Op ! m ! k) / 2)"
    using ik S N D d
    by (simp add: smul_nth [where r = n and c = n] sdiv_nth [where r = n and c = n]
        mneg_nth [where r = n and c = n])
qed

lemma is_mat_kron_T:
  assumes "is_mat n n A" "is_mat n n B" "0 < n"
  shows "is_mat (n * n) (n * n) (np_kron A (np_transpose B))"
  using assms by (intro is_mat_kron is_mat_transpose)

text \<open>
  Claim C2. For every rate \<open>gamma\<close>, every square operator \<open>O\<close> and every matrix
  \<open>rho\<close> of the same dimension \<open>n >= 1\<close>, the superoperator that \<open>make_Liouvillian\<close>
  assembles from the three instructions of \<open>make_Lindblad_instructions(gamma, O)\<close>,
  the sum of \<open>kron(Left, Right\<^sup>T)\<close>, applied to \<open>vec(rho)\<close> gives a vector whose
  reshaped \<open>n\<close> by \<open>n\<close> matrix has trace 0.
\<close>

theorem Lindblad_dissipator_trace_zero:
  assumes Op: "is_mat n n Op" and rho: "is_mat n n rho" and n: "0 < n"
  shows "\<exists>L. make_Liouvillian (make_Lindblad_instructions gamma Op) = Inr L
           \<and> is_mat (n * n) (n * n) L
           \<and> np_trace (np_reshape n n (np_dot_vec L (np_flatten rho))) = 0"
proof -
  define Od where "Od = np_conjugate (np_transpose Op)"
  define lr where "lr = smul gamma (sdiv (mneg (np_dot Od Op)) 2)"
  define A1 where "A1 = smul gamma Op"
  define II :: "complex mat" where "II = np_eye n"
  define K1 where "K1 = np_kron A1 (np_transpose Od)"
  define K2 where "K2 = np_kron lr (np_transpose II)"
  define K3 where "K3 = np_kron II (np_transpose lr)"
  define L where "L = madd (madd K1 K2) K3"
  have nrows: "nrows Op = n" using Op by (rule is_mat_nrows)
  have ins: "make_Lindblad_instructions gamma Op = [(A1, Od), (lr, II), (II, lr)]"
    by (simp add: make_Lindblad_instructions_def Let_def nrows Od_def lr_def A1_def II_def)
  have L: "make_Liouvillian (make_Lindblad_instructions gamma Op) = Inr L"
    by (simp add: ins make_Liouvillian_def L_def K1_def K2_def K3_def)
  have mOd: "is_mat n n Od" unfolding Od_def using Op n by (rule Od_props(1))
  have mlr: "is_mat n n lr" unfolding lr_def Od_def using Op n by (rule leftright_props(1))
  have mA1: "is_mat n n A1" unfolding A1_def using Op by (rule is_mat_smul)
  have mII: "is_mat n n II" unfolding II_def by (rule is_mat_eye)
  have mK1: "is_mat (n * n) (n * n) K1" unfolding K1_def using mA1 mOd n by (rule is_mat_kron_T)
  have mK2: "is_mat (n * n) (n * n) K2" unfolding K2_def using mlr mII n by (rule is_mat_kron_T)
  have mK3: "is_mat (n * n) (n * n) K3" unfolding K3_def using mII mlr n by (rule is_mat_kron_T)
  have mK12: "is_mat (n * n) (n * n) (madd K1 K2)" using mK1 mK2 by (rule is_mat_madd)
  have mL: "is_mat (n * n) (n * n) L" unfolding L_def using mK12 mK3 by (rule is_mat_madd)
  have Lent: "L ! (i * n + j) ! (k * n + l) =
      A1 ! i ! k * Od ! l ! j + lr ! i ! k * II ! l ! j + II ! i ! k * lr ! l ! j"
    if "i < n" "j < n" "k < n" "l < n" for i j k l
  proof -
    have a: "i * n + j < n * n" and b: "k * n + l < n * n" using that by (simp_all add: index_lt)
    have "L ! (i * n + j) ! (k * n + l) =
        K1 ! (i * n + j) ! (k * n + l) + K2 ! (i * n + j) ! (k * n + l) + K3 ! (i * n + j) ! (k * n + l)"
      unfolding L_def using mK1 mK2 mK3 mK12 a b
      by (simp add: madd_nth [where r = "n * n" and c = "n * n"])
    then show ?thesis
      unfolding K1_def K2_def K3_def using that mA1 mOd mlr mII
      by (simp add: kron_T_entry [where n = n])
  qed
  define ob where "ob = (\<lambda>i k. Op ! i ! k)"
  define p where "p = (\<lambda>k l. rho ! k ! l)"
  have e1: "A1 ! i ! k * Od ! l ! i = (gamma * ob i k) * cnj (ob i l)" if "i < n" "k < n" "l < n" for i k l
    using that Op n
    by (simp add: A1_def Od_def ob_def smul_nth [where r = n and c = n] Od_props(2))
  have e2: "lr ! i ! k = gamma * (- (\<Sum>m < n. cnj (ob m i) * ob m k) / 2)" if "i < n" "k < n" for i k
    unfolding lr_def Od_def ob_def using Op n that by (rule leftright_props(2))
  have eI: "II ! i ! k = (if i = k then 1 else 0)" if "i < n" "k < n" for i k
    unfolding II_def using that by (rule eye_nth)
  have "np_trace (np_reshape n n (np_dot_vec L (np_flatten rho))) =
      (\<Sum>i < n. \<Sum>k < n. \<Sum>l < n. L ! (i * n + i) ! (k * n + l) * rho ! k ! l)"
    using mL rho n by (rule trace_apply)
  also have "\<dots> = (\<Sum>i < n. \<Sum>k < n. \<Sum>l < n.
        (gamma * ob i k) * cnj (ob i l) * p k l
      + lr ! i ! k * (if l = i then 1 else 0) * p k l
      + (if i = k then 1 else 0) * lr ! l ! i * p k l)"
    by (intro sum.cong refl) (simp add: Lent e1 eI p_def distrib_right)
  also have "\<dots> =
        (\<Sum>i < n. \<Sum>k < n. \<Sum>l < n. (gamma * ob i k) * cnj (ob i l) * p k l)
      + (\<Sum>i < n. \<Sum>k < n. \<Sum>l < n. lr ! i ! k * (if l = i then 1 else 0) * p k l)
      + (\<Sum>i < n. \<Sum>k < n. \<Sum>l < n. (if i = k then 1 else 0) * lr ! l ! i * p k l)"
    by (simp only: sum.distrib)
  also have "(\<Sum>i < n. \<Sum>k < n. \<Sum>l < n. lr ! i ! k * (if l = i then 1 else 0) * p k l) =
      (\<Sum>i < n. \<Sum>k < n. (gamma * (- (\<Sum>m < n. cnj (ob m i) * ob m k) / 2)) * p k i)"
  proof (intro sum.cong refl)
    fix i k assume ik: "i \<in> {..<n}" "k \<in> {..<n}"
    have "(\<Sum>l < n. lr ! i ! k * (if l = i then 1 else 0) * p k l) =
        (\<Sum>l \<in> {..<n}. if l = i then lr ! i ! k * p k l else 0)"
      by (intro sum.cong refl) simp
    also have "\<dots> = lr ! i ! k * p k i"
      using ik by (simp add: sum.delta)
    finally show "(\<Sum>l < n. lr ! i ! k * (if l = i then 1 else 0) * p k l) =
        (gamma * (- (\<Sum>m < n. cnj (ob m i) * ob m k) / 2)) * p k i"
      using ik by (simp add: e2)
  qed
  also have "(\<Sum>i < n. \<Sum>k < n. \<Sum>l < n. (if i = k then 1 else 0) * lr ! l ! i * p k l) =
      (\<Sum>i < n. \<Sum>l < n. (gamma * (- (\<Sum>m < n. cnj (ob m l) * ob m i) / 2)) * p i l)"
  proof (rule sum.cong [OF refl])
    fix i assume i: "i \<in> {..<n}"
    have "(\<Sum>k < n. \<Sum>l < n. (if i = k then 1 else 0) * lr ! l ! i * p k l) =
        (\<Sum>k \<in> {..<n}. if k = i then (\<Sum>l < n. lr ! l ! i * p k l) else 0)"
      by (intro sum.cong refl) auto
    also have "\<dots> = (\<Sum>l < n. lr ! l ! i * p i l)"
      using i by (simp add: sum.delta)
    also have "\<dots> = (\<Sum>l < n. (gamma * (- (\<Sum>m < n. cnj (ob m l) * ob m i) / 2)) * p i l)"
      using i by (intro sum.cong refl) (simp add: e2)
    finally show "(\<Sum>k < n. \<Sum>l < n. (if i = k then 1 else 0) * lr ! l ! i * p k l) =
        (\<Sum>l < n. (gamma * (- (\<Sum>m < n. cnj (ob m l) * ob m i) / 2)) * p i l)" .
  qed
  also have "(\<Sum>i < n. \<Sum>k < n. \<Sum>l < n. (gamma * ob i k) * cnj (ob i l) * p k l)
      + (\<Sum>i < n. \<Sum>k < n. (gamma * (- (\<Sum>m < n. cnj (ob m i) * ob m k) / 2)) * p k i)
      + (\<Sum>i < n. \<Sum>l < n. (gamma * (- (\<Sum>m < n. cnj (ob m l) * ob m i) / 2)) * p i l) = 0"
    by (simp only: lindblad_trace_sums) simp
  finally have "np_trace (np_reshape n n (np_dot_vec L (np_flatten rho))) = 0" .
  with L mL show ?thesis by blast
qed

theorem Lindblad_dissipator_trace_zero_witness:
  "is_mat 2 2 [[0, 1], [0, 0 :: complex]] \<and> is_mat 2 2 [[1 / 4, \<i>], [- \<i>, 3 / 4 :: complex]]
   \<and> (0::nat) < 2
   \<and> (\<exists>L. make_Liouvillian (make_Lindblad_instructions (1 / 10) [[0, 1], [0, 0]]) = Inr L
           \<and> is_mat (2 * 2) (2 * 2) L
           \<and> np_trace (np_reshape 2 2 (np_dot_vec L (np_flatten [[1 / 4, \<i>], [- \<i>, 3 / 4]]))) = 0)"
proof -
  have a: "is_mat 2 2 [[0, 1], [0, 0 :: complex]]" by (simp add: is_mat_def)
  have b: "is_mat 2 2 [[1 / 4, \<i>], [- \<i>, 3 / 4 :: complex]]" by (simp add: is_mat_def)
  have c: "(0::nat) < 2" by simp
  from a b c Lindblad_dissipator_trace_zero [OF a b c, of "1 / 10"] show ?thesis
    by (intro conjI)
qed

subsection \<open>Electronic dissipation instructions\<close>






subsection \<open>Eigensystem solver\<close>

lemma collect_Returns: "collect (map Returns cs) = Returns cs"
  by (induction cs) simp_all
























subsection \<open>Electronic eigensystem by manifold\<close>

























end
